theory Spec2Isabelle
  imports Complex_Main
begin

section \<open>Results of fallible code\<close>

text \<open>
  The exceptions of \<^verbatim>\<open>pmf/main.py\<close> are values. A function that can raise returns
  \<open>error + 'a\<close>, with \<open>Inl\<close> the exception. numpy's float64 numbers are modelled by
  the reals: rounding and overflow are outside the model.
\<close>

datatype error = IndexError | ValueError | TypeError | NameError | AttributeError
  | ZeroDivisionError | FloatingPointError

definition andthen :: "error + 'a \<Rightarrow> ('a \<Rightarrow> error + 'b) \<Rightarrow> error + 'b" where
  "andthen r k = (case r of Inl e \<Rightarrow> Inl e | Inr x \<Rightarrow> k x)"

section \<open>Arrays\<close>

text \<open>
  A one-dimensional array is a list, a two-dimensional array a list of rows. Indices are
  the non-negative indices that \<^verbatim>\<open>nonzero()\<close> and \<^verbatim>\<open>xrange\<close> produce; an index out
  of range raises \<^verbatim>\<open>IndexError\<close>, as numpy does.
\<close>

definition vec_get :: "real list \<Rightarrow> nat \<Rightarrow> error + real" where
  "vec_get v k = (if k < length v then Inr (v ! k) else Inl IndexError)"

definition mat_get :: "real list list \<Rightarrow> nat \<Rightarrow> nat \<Rightarrow> error + real" where
  "mat_get a r c =
     (if r < length a then
        (if c < length (a ! r) then Inr (a ! r ! c) else Inl IndexError)
      else Inl IndexError)"

definition mat_set :: "real list list \<Rightarrow> nat \<Rightarrow> nat \<Rightarrow> real \<Rightarrow> real list list" where
  "mat_set a r c v = a[r := (a ! r)[c := v]]"

definition column :: "real list list \<Rightarrow> nat \<Rightarrow> error + real list" where
  \<comment> \<open>\<^verbatim>\<open>a[:,c]\<close>, and \<^verbatim>\<open>a.T[c,:]\<close>, as a one-dimensional array\<close>
  "column a c =
     (if list_all (\<lambda>row. c < length row) a then Inr (map (\<lambda>row. row ! c) a)
      else Inl IndexError)"

definition row_slice :: "real list list \<Rightarrow> nat \<Rightarrow> error + real list list" where
  \<comment> \<open>\<^verbatim>\<open>R[u,:]\<close> of a numpy matrix: a matrix of one row\<close>
  "row_slice a r = (if r < length a then Inr [a ! r] else Inl IndexError)"

definition col_slice :: "real list list \<Rightarrow> nat \<Rightarrow> error + real list list" where
  \<comment> \<open>\<^verbatim>\<open>R[:,i]\<close> of a numpy matrix: a matrix of one column\<close>
  "col_slice a c =
     (if list_all (\<lambda>row. c < length row) a then Inr (map (\<lambda>row. [row ! c]) a)
      else Inl IndexError)"

definition dot :: "real list \<Rightarrow> real list \<Rightarrow> error + real" where
  \<comment> \<open>\<^verbatim>\<open>np.dot\<close> of two one-dimensional arrays\<close>
  "dot a b =
     (if length a = length b then Inr (sum_list (map (\<lambda>(x, y). x * y) (zip a b)))
      else Inl ValueError)"

definition linalg_norm :: "real list \<Rightarrow> real" where
  \<comment> \<open>\<^verbatim>\<open>np.linalg.norm\<close> of a one-dimensional array\<close>
  "linalg_norm a = sqrt (sum_list (map (\<lambda>x. x ^ 2) a))"

definition isnan :: "real \<Rightarrow> bool" where
  \<comment> \<open>no real number is NaN, and the rating matrix is built from integers\<close>
  "isnan v = False"

definition nansum :: "real list list \<Rightarrow> real" where
  "nansum x = sum_list (filter (\<lambda>v. \<not> isnan v) (concat x))"

definition count_nonzero :: "bool list \<Rightarrow> nat" where
  "count_nonzero bs = length (filter (\<lambda>b. b) bs)"

definition py_max :: "nat list \<Rightarrow> error + nat" where
  \<comment> \<open>\<^verbatim>\<open>max\<close> of a sequence; of an empty one it raises \<^verbatim>\<open>ValueError\<close>\<close>
  "py_max xs = (case xs of [] \<Rightarrow> Inl ValueError | x # rest \<Rightarrow> Inr (fold max rest x))"

section \<open>The sparse rating matrix\<close>

text \<open>
  \<^verbatim>\<open>_load_data\<close> reads one row of integers per line. The file is given by these rows
  (\<^verbatim>\<open>int(tok)\<close> of every tab-separated token); the model starts at the slice
  \<^verbatim>\<open>[:3]\<close>. The sparse matrix is its shape and its coordinate entries; entries that
  share a position are summed when the matrix is read, as scipy does.
\<close>

record csc_matrix =
  shape_rows :: nat
  shape_cols :: nat
  entries :: "(nat \<times> nat \<times> real) list"

definition cell :: "csc_matrix \<Rightarrow> nat \<Rightarrow> nat \<Rightarrow> real" where
  "cell a u i = sum_list (map (\<lambda>(r, c, v). v) (filter (\<lambda>(r, c, v). r = u \<and> c = i) (entries a)))"

definition todense :: "csc_matrix \<Rightarrow> real list list" where
  "todense a = map (\<lambda>u. map (\<lambda>i. cell a u i) [0..<shape_cols a]) [0..<shape_rows a]"

definition nonzero :: "csc_matrix \<Rightarrow> nat list \<times> nat list" where
  \<comment> \<open>the positions of the non-zero cells, column by column\<close>
  "nonzero a =
     (let ks = filter (\<lambda>(u, i). cell a u i \<noteq> 0)
                 (concat (map (\<lambda>i. map (\<lambda>u. (u, i)) [0..<shape_rows a]) [0..<shape_cols a]))
      in (map fst ks, map snd ks))"

definition load_data :: "int list list \<Rightarrow> error + csc_matrix" where
  "load_data file =
     (let data = map (take 3) file in
      if data = [] then Inl IndexError
      else if list_ex (\<lambda>r. length r \<noteq> 3) data then Inl IndexError
      else
        let ij = map (\<lambda>r. (r ! 0 - 1, r ! 1 - 1)) data;
            vals = map (\<lambda>r. r ! 2) data
        in if list_ex (\<lambda>(a, b). a < 0 \<or> b < 0) ij then Inl ValueError
           else Inr \<lparr>shape_rows = nat (fold max (map fst ij) 0) + 1,
                     shape_cols = nat (fold max (map snd ij) 0) + 1,
                     entries = map (\<lambda>((a, b), v). (nat a, nat b, real_of_int v)) (zip ij vals)\<rparr>)"

section \<open>The model object\<close>

text \<open>
  The attributes of a \<^verbatim>\<open>PMF\<close> object, \<open>self_x\<close> for \<^verbatim>\<open>self.x\<close>. \<^verbatim>\<open>sse\<close> and
  \<^verbatim>\<open>rmse\<close> exist only once \<^verbatim>\<open>train\<close> has set them. \<open>step_log\<close> is a history
  variable that the source does not have: one entry \<open>(u, i, feature, err)\<close> per call of
  \<^verbatim>\<open>update\<close> that \<^verbatim>\<open>train\<close> has made; nothing the source computes reads it.
\<close>

record pmf =
  self_R :: "real list list"
  self_f :: nat
  self_gamma :: real
  self_lambda :: real
  self_K_users :: "nat list"
  self_K_items :: "nat list"
  self_n :: nat
  self_m :: nat
  self_p :: "real list list"
  self_q :: "real list list"
  self_min_iter :: int
  self_max_iter :: int
  self_min_improvement :: real
  self_mu :: real
  self_b_u :: "real list"
  self_b_i :: "real list"
  self_sse :: "real option"
  self_rmse :: "real option"
  step_log :: "(nat \<times> nat \<times> nat \<times> real) list"

subsection \<open>Baseline estimation\<close>

text \<open>
  \<^verbatim>\<open>_get_mu\<close> calls itself on the whole matrix when the mean of its argument is zero
  (a zero is false in Python). \<open>None\<close> is a recursion that never reaches a result.
  Dividing a float64 by zero raises under \<^verbatim>\<open>np.seterr(all='raise')\<close>.
\<close>

partial_function (option) get_mu :: "real list list \<Rightarrow> real list list \<Rightarrow> (error + real) option" where
  "get_mu R x =
     (let c = count_nonzero (map (\<lambda>v. \<not> isnan v) (concat x)) in
      if c = 0 then Some (Inl FloatingPointError)
      else
        let v = nansum x / real c in
        if v \<noteq> 0 then Some (Inr v) else get_mu R R)"

definition obind :: "(error + 'a) option \<Rightarrow> ('a \<Rightarrow> (error + 'b) option) \<Rightarrow> (error + 'b) option" where
  "obind r k = (case r of None \<Rightarrow> None | Some (Inl e) \<Rightarrow> Some (Inl e) | Some (Inr x) \<Rightarrow> k x)"

fun get_mu_each :: "real list list \<Rightarrow> (error + real list list) list \<Rightarrow> (error + real list) option" where
  "get_mu_each R [] = Some (Inr [])"
| "get_mu_each R (x # xs) =
     obind (case x of Inl e \<Rightarrow> Some (Inl e) | Inr sl \<Rightarrow> get_mu R sl) (\<lambda>v.
     obind (get_mu_each R xs) (\<lambda>vs. Some (Inr (v # vs))))"

definition get_baseline :: "pmf \<Rightarrow> (error + pmf) option" where
  "get_baseline s =
     obind (get_mu (self_R s) (self_R s)) (\<lambda>mu.
     obind (get_mu_each (self_R s) (map (\<lambda>u. row_slice (self_R s) u) [0..<self_n s])) (\<lambda>us.
     obind (get_mu_each (self_R s) (map (\<lambda>i. col_slice (self_R s) i) [0..<self_m s])) (\<lambda>is.
       Some (Inr (s\<lparr>self_mu := mu,
                     self_b_u := map (\<lambda>v. mu - v) us,
                     self_b_i := map (\<lambda>v. mu - v) is\<rparr>)))))"

subsection \<open>The constructor\<close>

text \<open>
  \<^verbatim>\<open>hasattr(self, 'p')\<close> asks whether the object under construction has an attribute
  of that name: one of the class, or one that \<^verbatim>\<open>__init__\<close> has assigned so far.
  \<^verbatim>\<open>np.random.uniform\<close> is a parameter: \<open>rnd k\<close> is the \<open>k\<close>-th number it draws.
  A negative \<^verbatim>\<open>f\<close> is not modelled. Where the test holds and no matrix was
  passed, the attribute would be \<^verbatim>\<open>None\<close> and its first use would raise
  \<^verbatim>\<open>TypeError\<close>; the model raises it at the assignment.
\<close>

definition class_attrs :: "string list" where
  "class_attrs = [''__doc__'', ''__module__'', ''__init__'', ''get_rating'', ''predict_rhat'',
     ''_get_mu'', ''get_baseline'', ''update'', ''compute_cost'', ''get_error'', ''train'',
     ''_load_data'']"

definition hasattr :: "string list \<Rightarrow> string \<Rightarrow> bool" where
  "hasattr attrs name = (name \<in> set attrs)"

definition uniform :: "(nat \<Rightarrow> real) \<Rightarrow> nat \<Rightarrow> nat \<Rightarrow> real list" where
  \<comment> \<open>the \<open>sz\<close> draws that follow the first \<open>start\<close>\<close>
  "uniform rnd start sz = map rnd [start..<start + sz]"

definition reshape :: "real list \<Rightarrow> nat \<Rightarrow> nat \<Rightarrow> real list list" where
  "reshape xs r c = map (\<lambda>k. take c (drop (k * c) xs)) [0..<r]"

definition ones_times :: "real list list \<Rightarrow> real list list" where
  \<comment> \<open>\<^verbatim>\<open>np.ones(shape) * a\<close> for \<open>a\<close> of that shape\<close>
  "ones_times a = map (map (\<lambda>x. 1 * x)) a"

definition PMF_init ::
  "int list list \<Rightarrow> nat \<Rightarrow> real \<Rightarrow> real \<Rightarrow> int \<Rightarrow> int \<Rightarrow> real \<Rightarrow>
   real list list option \<Rightarrow> real list list option \<Rightarrow> (nat \<Rightarrow> real) \<Rightarrow> (error + pmf) option" where
  "PMF_init file f gamma lambda min_iter max_iter min_improvement p q rnd =
     obind (Some (load_data file)) (\<lambda>R_sparse.
       let R = todense R_sparse;
           K_users = fst (nonzero R_sparse);
           K_items = snd (nonzero R_sparse)
       in
     obind (Some (py_max (fst (nonzero R_sparse)))) (\<lambda>max_u.
     obind (Some (py_max (snd (nonzero R_sparse)))) (\<lambda>max_i.
       let n = max_u + 1;
           m = max_i + 1;
           attrs = class_attrs @ [''R_sparse'', ''R'', ''f'', ''gamma'', ''lambda_'',
                     ''K_users'', ''K_items'', ''n'', ''m''];
           p_drawn = (if hasattr attrs ''p'' then 0 else f * n);
           self_p_new =
             (if hasattr attrs ''p''
              then (case p of None \<Rightarrow> Inl TypeError | Some a \<Rightarrow> Inr a)
              else Inr (ones_times (reshape (uniform rnd 0 (f * n)) f n)));
           self_q_new =
             (if hasattr (attrs @ [''p'']) ''q''
              then (case q of None \<Rightarrow> Inl TypeError | Some a \<Rightarrow> Inr a)
              else Inr (ones_times (reshape (uniform rnd p_drawn (m * f)) f m)))
       in
     obind (Some self_p_new) (\<lambda>p0.
     obind (Some self_q_new) (\<lambda>q0.
       get_baseline
         \<lparr>self_R = R, self_f = f, self_gamma = gamma, self_lambda = lambda,
          self_K_users = K_users, self_K_items = K_items, self_n = n, self_m = m,
          self_p = p0, self_q = q0, self_min_iter = min_iter, self_max_iter = max_iter,
          self_min_improvement = min_improvement,
          self_mu = 0, self_b_u = [], self_b_i = [],
          self_sse = None, self_rmse = None, step_log = []\<rparr>)))))"

subsection \<open>Prediction\<close>

definition get_rating :: "pmf \<Rightarrow> nat \<Rightarrow> nat \<Rightarrow> error + real" where
  "get_rating s u i = mat_get (self_R s) u i"

definition predict_rhat :: "pmf \<Rightarrow> nat \<Rightarrow> nat \<Rightarrow> error + real" where
  "predict_rhat s u i =
     andthen (vec_get (self_b_i s) i) (\<lambda>bi.
     andthen (vec_get (self_b_u s) u) (\<lambda>bu.
     andthen (column (self_q s) i) (\<lambda>qi.
     andthen (column (self_p s) u) (\<lambda>pu.
     andthen (dot qi pu) (\<lambda>d.
       let r_hat = self_mu s + bi + bu + d in
       if r_hat > 5 then Inr 5
       else if r_hat < 1 then Inr 1
       else Inr r_hat)))))"

definition get_error :: "pmf \<Rightarrow> nat \<Rightarrow> nat \<Rightarrow> error + real" where
  "get_error s u i =
     andthen (get_rating s u i) (\<lambda>r.
     andthen (predict_rhat s u i) (\<lambda>r_hat.
       let err = r - r_hat in Inr err))"

subsection \<open>The gradient step\<close>

text \<open>
  The four assignments of \<^verbatim>\<open>update\<close>, in the order of the source. Each reads the
  object as the assignments before it have left it. The arrays \<^verbatim>\<open>b_u\<close>, \<^verbatim>\<open>b_i\<close>,
  \<^verbatim>\<open>p\<close> and \<^verbatim>\<open>q\<close> are four separate arrays, so an assignment to one changes no other.
\<close>

definition update_b_u :: "pmf \<Rightarrow> nat \<Rightarrow> real \<Rightarrow> error + pmf" where
  "update_b_u s u err =
     andthen (vec_get (self_b_u s) u) (\<lambda>bu.
       Inr (s\<lparr>self_b_u := (self_b_u s)[u := bu + self_gamma s * (err - self_lambda s * bu)]\<rparr>))"

definition update_b_i :: "pmf \<Rightarrow> nat \<Rightarrow> real \<Rightarrow> error + pmf" where
  "update_b_i s i err =
     andthen (vec_get (self_b_i s) i) (\<lambda>bi.
       Inr (s\<lparr>self_b_i := (self_b_i s)[i := bi + self_gamma s * (err - self_lambda s * bi)]\<rparr>))"

definition update_q :: "pmf \<Rightarrow> nat \<Rightarrow> nat \<Rightarrow> nat \<Rightarrow> real \<Rightarrow> error + pmf" where
  "update_q s u i f err =
     andthen (mat_get (self_q s) f i) (\<lambda>qfi.
     andthen (mat_get (self_p s) f u) (\<lambda>pfu.
       Inr (s\<lparr>self_q := mat_set (self_q s) f i
                 (qfi + self_gamma s * (err * pfu - self_lambda s * qfi))\<rparr>)))"

definition update_p :: "pmf \<Rightarrow> nat \<Rightarrow> nat \<Rightarrow> nat \<Rightarrow> real \<Rightarrow> error + pmf" where
  "update_p s u i f err =
     andthen (mat_get (self_p s) f u) (\<lambda>pfu.
     andthen (mat_get (self_q s) f i) (\<lambda>qfi.
       Inr (s\<lparr>self_p := mat_set (self_p s) f u
                 (pfu + self_gamma s * (err * qfi - self_lambda s * pfu))\<rparr>)))"

definition update :: "pmf \<Rightarrow> nat \<Rightarrow> nat \<Rightarrow> nat \<Rightarrow> real \<Rightarrow> error + pmf" where
  "update s u i f err =
     andthen (update_b_u s u err) (\<lambda>s1.
     andthen (update_b_i s1 i err) (\<lambda>s2.
     andthen (update_q s2 u i f err) (\<lambda>s3.
       update_p s3 u i f err)))"

subsection \<open>The cost of the convergence test\<close>

definition compute_cost :: "pmf \<Rightarrow> nat \<Rightarrow> nat \<Rightarrow> error + real" where
  "compute_cost s u i =
     andthen (get_rating s u i) (\<lambda>r.
     andthen (vec_get (self_b_i s) i) (\<lambda>bi.
     andthen (vec_get (self_b_u s) u) (\<lambda>bu.
     andthen (column (self_q s) i) (\<lambda>qi.
     andthen (column (self_p s) u) (\<lambda>pu.
     andthen (dot qi pu) (\<lambda>d.
       let r_hat_desc = self_mu s - bi - bu - d;
           cost = (r - r_hat_desc) ^ 2 + self_lambda s *
                    (bi ^ 2 + bu ^ 2 + linalg_norm qi ^ 2 + linalg_norm pu ^ 2)
       in Inr cost))))))"

subsection \<open>Training\<close>

text \<open>
  The three nested loops of \<^verbatim>\<open>train\<close>. The variables \<^verbatim>\<open>u, i\<close> of the innermost loop
  are variables of the function: they keep the last pair after the loop, and are unbound
  (\<open>None\<close>) until the loop has run once. \<^verbatim>\<open>xrange(self.max_iter)\<close> is evaluated once
  per feature, when its loop starts (\<open>hi\<close>). The loop over the epochs returns, beside the
  values the source has, one entry \<open>(cost_last, cost)\<close> per epoch it has run, in order:
  a history that nothing reads.
\<close>

definition step :: "pmf \<Rightarrow> nat \<Rightarrow> nat \<Rightarrow> nat \<Rightarrow> error + pmf" where
  "step s feature u i =
     andthen (get_error s u i) (\<lambda>err.
     andthen (update s u i feature err) (\<lambda>s1.
       case self_sse s1 of
         None \<Rightarrow> Inl AttributeError
       | Some a \<Rightarrow> Inr (s1\<lparr>self_sse := Some (a + err ^ 2),
                              step_log := step_log s1 @ [(u, i, feature, err)]\<rparr>)))"

fun pairs_loop ::
  "pmf \<Rightarrow> nat \<Rightarrow> (nat \<times> nat) list \<Rightarrow> (nat \<times> nat) option \<Rightarrow> error + pmf \<times> (nat \<times> nat) option" where
  "pairs_loop s feature [] ui = Inr (s, ui)"
| "pairs_loop s feature ((u, i) # rest) ui =
     andthen (step s feature u i) (\<lambda>s1. pairs_loop s1 feature rest (Some (u, i)))"

definition epoch ::
  "pmf \<Rightarrow> nat \<Rightarrow> (nat \<times> nat) option \<Rightarrow> error + pmf \<times> (nat \<times> nat) option \<times> real" where
  "epoch s feature ui =
     andthen (pairs_loop s feature (zip (self_K_users s) (self_K_items s)) ui) (\<lambda>(s1, ui1).
       case ui1 of
         None \<Rightarrow> Inl NameError
       | Some (u, i) \<Rightarrow> andthen (compute_cost s1 u i) (\<lambda>cost. Inr (s1, ui1, cost)))"

function epochs_loop ::
  "int \<Rightarrow> pmf \<Rightarrow> nat \<Rightarrow> nat \<Rightarrow> real \<Rightarrow> (nat \<times> nat) option \<Rightarrow>
   error + pmf \<times> real \<times> (nat \<times> nat) option \<times> (real \<times> real) list" where
  "epochs_loop hi s feature n cost ui =
     (if int n < hi then
        (let cost_last = cost in
         case epoch s feature ui of
           Inl e \<Rightarrow> Inl e
         | Inr (s1, ui1, cost1) \<Rightarrow>
             if int n \<ge> self_min_iter s1 \<and> cost1 > cost_last - self_min_improvement s1
             then Inr (s1, cost1, ui1, [(cost_last, cost1)])
             else (case epochs_loop hi s1 feature (Suc n) cost1 ui1 of
                     Inl e \<Rightarrow> Inl e
                   | Inr (s2, cost2, ui2, history) \<Rightarrow>
                       Inr (s2, cost2, ui2, (cost_last, cost1) # history)))
      else Inr (s, cost, ui, []))"
  by pat_completeness auto
termination
  by (relation "measure (\<lambda>(hi, s, feature, n, cost, ui). nat (hi - int n))") auto

declare epochs_loop.simps [simp del]

fun features_loop ::
  "pmf \<Rightarrow> nat list \<Rightarrow> real \<Rightarrow> (nat \<times> nat) option \<Rightarrow> error + pmf \<times> real \<times> (nat \<times> nat) option" where
  "features_loop s [] cost ui = Inr (s, cost, ui)"
| "features_loop s (feature # rest) cost ui =
     (case epochs_loop (self_max_iter s) s feature 0 cost ui of
        Inl e \<Rightarrow> Inl e
      | Inr (s1, cost1, ui1, history) \<Rightarrow> features_loop s1 rest cost1 ui1)"

definition train :: "pmf \<Rightarrow> error + pmf" where
  "train s =
     (let cost = 2;
          n_ratings = length (self_K_items s);
          s0 = s\<lparr>self_sse := Some 0, step_log := []\<rparr>
      in case features_loop s0 [0..<self_f s0] cost None of
           Inl e \<Rightarrow> Inl e
         | Inr (s1, cost1, ui1) \<Rightarrow>
             (case self_sse s1 of
                None \<Rightarrow> Inl AttributeError
              | Some sse \<Rightarrow>
                  if n_ratings = 0 then Inl ZeroDivisionError
                  else Inr (s1\<lparr>self_rmse := Some (sqrt (sse / real n_ratings))\<rparr>)))"

section \<open>Shapes, invariants and examples\<close>

text \<open>
  The shapes that \<^verbatim>\<open>__init__\<close> gives the arrays: \<^verbatim>\<open>b_u\<close> has \<open>n\<close> entries,
  \<^verbatim>\<open>b_i\<close> has \<open>m\<close>, \<^verbatim>\<open>p\<close> is \<open>f \<times> n\<close>, \<^verbatim>\<open>q\<close> is \<open>f \<times> m\<close>, and the
  rating matrix has at least \<open>n\<close> rows and \<open>m\<close> columns.
\<close>

definition shapes_ok :: "pmf \<Rightarrow> bool" where
  "shapes_ok s =
     (length (self_b_u s) = self_n s \<and> length (self_b_i s) = self_m s \<and>
      length (self_p s) = self_f s \<and> list_all (\<lambda>row. length row = self_n s) (self_p s) \<and>
      length (self_q s) = self_f s \<and> list_all (\<lambda>row. length row = self_m s) (self_q s) \<and>
      self_n s \<le> length (self_R s) \<and> list_all (\<lambda>row. self_m s \<le> length row) (self_R s))"

text \<open>What training never assigns.\<close>

definition same_setup :: "pmf \<Rightarrow> pmf \<Rightarrow> bool" where
  "same_setup s s' =
     (self_R s' = self_R s \<and> self_f s' = self_f s \<and> self_gamma s' = self_gamma s \<and>
      self_lambda s' = self_lambda s \<and> self_K_users s' = self_K_users s \<and>
      self_K_items s' = self_K_items s \<and> self_n s' = self_n s \<and> self_m s' = self_m s \<and>
      self_min_iter s' = self_min_iter s \<and> self_max_iter s' = self_max_iter s \<and>
      self_min_improvement s' = self_min_improvement s \<and> self_mu s' = self_mu s \<and>
      self_rmse s' = self_rmse s)"

text \<open>
  The steps of the history without their errors; \<open>c\<close> passes over the known pairs for one
  feature; and, feature by feature, \<open>cs\<close> passes each.
\<close>

definition logged :: "pmf \<Rightarrow> (nat \<times> nat \<times> nat) list" where
  "logged s = map (\<lambda>(u, i, f, e). (u, i, f)) (step_log s)"

definition passes :: "pmf \<Rightarrow> nat \<Rightarrow> nat \<Rightarrow> (nat \<times> nat \<times> nat) list" where
  "passes s feature c =
     concat (replicate c (map (\<lambda>(u, i). (u, i, feature)) (zip (self_K_users s) (self_K_items s))))"

fun all_passes :: "pmf \<Rightarrow> nat list \<Rightarrow> nat list \<Rightarrow> (nat \<times> nat \<times> nat) list" where
  "all_passes s [] cs = []"
| "all_passes s (feature # fs) [] = []"
| "all_passes s (feature # fs) (c # cs) = passes s feature c @ all_passes s fs cs"

definition sse_is_sum :: "pmf \<Rightarrow> bool" where
  "sse_is_sum s = (self_sse s = Some (sum_list (map (\<lambda>(u, i, f, e). e ^ 2) (step_log s))))"

text \<open>
  The file of three lines \<^verbatim>\<open>1 1 5\<close>, \<^verbatim>\<open>1 2 3\<close>, \<^verbatim>\<open>2 1 4\<close> (tab-separated), a
  sequence of draws within the bounds of \<^verbatim>\<open>np.random.uniform(-0.01, 0.01)\<close>, and the
  object that the constructor builds from them with one feature and its default
  parameters.
\<close>

definition example_file :: "int list list" where
  "example_file = [[1, 1, 5], [1, 2, 3], [2, 1, 4]]"

definition example_rnd :: "nat \<Rightarrow> real" where
  "example_rnd k = (if even k then 1 / 200 else - (1 / 200))"

definition example_model :: pmf where
  "example_model =
     \<lparr>self_R = [[5, 3], [4, 0]], self_f = 1, self_gamma = 5 / 1000, self_lambda = 2 / 100,
      self_K_users = [0, 1, 0], self_K_items = [0, 0, 1], self_n = 2, self_m = 2,
      self_p = [[1 / 200, - (1 / 200)]], self_q = [[1 / 200, - (1 / 200)]],
      self_min_iter = 1, self_max_iter = 1000, self_min_improvement = 1 / 10000,
      self_mu = 3, self_b_u = [- 1, 1], self_b_i = [- (3 / 2), 3 / 2],
      self_sse = None, self_rmse = None, step_log = []\<rparr>"

text \<open>
  What the loops of \<^verbatim>\<open>train\<close> are compared with. \<open>run_steps\<close> makes the gradient
  steps alone: for each \<open>(u, i, f)\<close> of a list, in order, \<^verbatim>\<open>get_error\<close> and then
  \<^verbatim>\<open>update\<close> with that error; it returns the errors and assigns neither \<^verbatim>\<open>sse\<close>
  nor the history. \<open>run_epochs\<close> runs a given number of epochs one after the other,
  with no test in between, and returns their costs. \<open>epoch_counts\<close> is, feature by
  feature, the number of epochs that the loop over the epochs runs. \<open>log_entries\<close>
  pairs steps with errors, and \<open>accum s xs s'\<close> says that \<open>s'\<close> is \<open>s\<close> after the
  steps \<open>xs\<close>, with their squared errors added to \<^verbatim>\<open>sse\<close> and the steps appended
  to the history.
\<close>

fun run_steps :: "pmf \<Rightarrow> (nat \<times> nat \<times> nat) list \<Rightarrow> error + pmf \<times> real list" where
  "run_steps s [] = Inr (s, [])"
| "run_steps s ((u, i, f) # rest) =
     andthen (get_error s u i) (\<lambda>err.
     andthen (update s u i f err) (\<lambda>s1.
     andthen (run_steps s1 rest) (\<lambda>(s2, errs). Inr (s2, err # errs))))"

fun run_epochs ::
  "pmf \<Rightarrow> nat \<Rightarrow> (nat \<times> nat) option \<Rightarrow> nat \<Rightarrow> error + pmf \<times> (nat \<times> nat) option \<times> real list" where
  "run_epochs s feature ui 0 = Inr (s, ui, [])"
| "run_epochs s feature ui (Suc c) =
     andthen (epoch s feature ui) (\<lambda>(s1, ui1, cost1).
     andthen (run_epochs s1 feature ui1 c) (\<lambda>(s2, ui2, costs). Inr (s2, ui2, cost1 # costs)))"

fun epoch_counts :: "pmf \<Rightarrow> nat list \<Rightarrow> real \<Rightarrow> (nat \<times> nat) option \<Rightarrow> nat list" where
  "epoch_counts s [] cost ui = []"
| "epoch_counts s (feature # rest) cost ui =
     (case epochs_loop (self_max_iter s) s feature 0 cost ui of
        Inl e \<Rightarrow> []
      | Inr (s1, cost1, ui1, history) \<Rightarrow> length history # epoch_counts s1 rest cost1 ui1)"

definition log_entries :: "(nat \<times> nat \<times> nat) list \<Rightarrow> real list \<Rightarrow> (nat \<times> nat \<times> nat \<times> real) list" where
  "log_entries xs errs = map (\<lambda>((u, i, f), e). (u, i, f, e)) (zip xs errs)"

definition accum :: "pmf \<Rightarrow> (nat \<times> nat \<times> nat) list \<Rightarrow> pmf \<Rightarrow> bool" where
  "accum s xs s' =
     (\<exists>a t errs. self_sse s = Some a \<and> run_steps s xs = Inr (t, errs) \<and>
        s' = t\<lparr>self_sse := Some (a + sum_list (map (\<lambda>e. e ^ 2) errs)),
               step_log := step_log s @ log_entries xs errs\<rparr>)"

text \<open>The known pairs are positions of the arrays.\<close>

definition pairs_ok :: "pmf \<Rightarrow> bool" where
  "pairs_ok s =
     list_all (\<lambda>(u, i). u < self_n s \<and> i < self_m s) (zip (self_K_users s) (self_K_items s))"

text \<open>The example as \<^verbatim>\<open>train\<close> has it when its loops start.\<close>

definition example_started :: pmf where
  "example_started = example_model\<lparr>self_sse := Some 0, step_log := []\<rparr>"

text \<open>An object whose rating matrix has no known entry.\<close>

definition unrated_model :: pmf where
  "unrated_model =
     example_model\<lparr>self_R := [[0, 0], [0, 0]], self_K_users := [], self_K_items := []\<rparr>"

section \<open>Basic facts\<close>

declare get_mu.simps [code]

lemma andthen_Inl [simp]: "andthen (Inl e) k = Inl e"
  by (simp add: andthen_def)

lemma andthen_Inr [simp]: "andthen (Inr x) k = k x"
  by (simp add: andthen_def)

lemma andthen_eq_Inr:
  "andthen r k = Inr y \<longleftrightarrow> (\<exists>x. r = Inr x \<and> k x = Inr y)"
  by (cases r) simp_all

lemma obind_simps [simp]:
  "obind None k = None"
  "obind (Some (Inl e)) k = Some (Inl e)"
  "obind (Some (Inr x)) k = k x"
  by (simp_all add: obind_def)

lemma vec_get_Inr: "vec_get v k = Inr x \<longleftrightarrow> k < length v \<and> x = v ! k"
  by (auto simp: vec_get_def)

lemma mat_get_Inr:
  "mat_get a r c = Inr x \<longleftrightarrow> r < length a \<and> c < length (a ! r) \<and> x = a ! r ! c"
  by (auto simp: mat_get_def)

lemma mat_set_length [simp]: "length (mat_set a r c v) = length a"
  by (simp add: mat_set_def)

lemma mat_set_row_length [simp]: "length (mat_set a r c v ! k) = length (a ! k)"
  by (cases "k = r"; cases "r < length a") (simp_all add: mat_set_def list_update_beyond)

lemma mat_set_other: "(k, j) \<noteq> (r, c) \<Longrightarrow> mat_set a r c v ! k ! j = a ! k ! j"
  by (cases "k = r"; cases "r < length a") (auto simp: mat_set_def list_update_beyond)

lemma mat_set_same: "r < length a \<Longrightarrow> c < length (a ! r) \<Longrightarrow> mat_set a r c v ! r ! c = v"
  by (simp add: mat_set_def)

lemma column_ok:
  "list_all (\<lambda>row. length row = w) a \<Longrightarrow> c < w \<Longrightarrow> column a c = Inr (map (\<lambda>row. row ! c) a)"
  by (simp add: column_def list_all_iff)

lemma sum_list_zip_nth:
  fixes a b :: "real list"
  assumes "length a = length b"
  shows "sum_list (map (\<lambda>(x, y). x * y) (zip a b)) = (\<Sum>k<length a. a ! k * b ! k)"
proof -
  have "sum_list (map (\<lambda>(x, y). x * y) (zip a b)) =
      (\<Sum>k = 0..<length (zip a b). (map (\<lambda>(x, y). x * y) (zip a b)) ! k)"
    by (simp add: sum_list_sum_nth)
  also have "\<dots> = (\<Sum>k = 0..<length a. a ! k * b ! k)"
    using assms by (intro sum.cong) simp_all
  finally show ?thesis by (simp add: lessThan_atLeast0)
qed

lemma init_example:
  "PMF_init example_file 1 (5 / 1000) (2 / 100) 1 1000 (1 / 10000) None None example_rnd =
   Some (Inr example_model)"
  by code_simp

lemma example_shapes: "shapes_ok example_model"
  by code_simp

section \<open>The predictor\<close>

text \<open>
  C5. For every user \<open>u\<close> and item \<open>i\<close> of a model with the shapes of the constructor,
  whatever the values of \<open>mu\<close>, the biases and the factors, \<^verbatim>\<open>predict_rhat\<close> returns
  the sum \<open>mu + b_i[i] + b_u[u] + dot(q[:,i], p[:,u])\<close> clamped to \<open>[1, 5]\<close>, and the
  value it returns lies in that interval.
\<close>

theorem predict_rhat_clamped:
  assumes "shapes_ok s" "u < self_n s" "i < self_m s"
  shows "predict_rhat s u i =
           Inr (max 1 (min 5 (self_mu s + self_b_i s ! i + self_b_u s ! u +
                 (\<Sum>k<self_f s. self_q s ! k ! i * self_p s ! k ! u))))
         \<and> (\<exists>r. predict_rhat s u i = Inr r \<and> 1 \<le> r \<and> r \<le> 5)"
proof -
  have q: "column (self_q s) i = Inr (map (\<lambda>row. row ! i) (self_q s))"
    using assms unfolding shapes_ok_def by (intro column_ok [where w = "self_m s"]) auto
  have p: "column (self_p s) u = Inr (map (\<lambda>row. row ! u) (self_p s))"
    using assms unfolding shapes_ok_def by (intro column_ok [where w = "self_n s"]) auto
  have d: "dot (map (\<lambda>row. row ! i) (self_q s)) (map (\<lambda>row. row ! u) (self_p s)) =
      Inr (\<Sum>k<self_f s. self_q s ! k ! i * self_p s ! k ! u)"
    using assms by (simp add: dot_def shapes_ok_def sum_list_zip_nth)
  have eq: "predict_rhat s u i =
           Inr (max 1 (min 5 (self_mu s + self_b_i s ! i + self_b_u s ! u +
                 (\<Sum>k<self_f s. self_q s ! k ! i * self_p s ! k ! u))))"
    using assms unfolding predict_rhat_def
    by (simp add: q p d vec_get_def shapes_ok_def Let_def max_def min_def)
  show ?thesis unfolding eq by simp
qed

theorem predict_rhat_clamped_witness:
  "shapes_ok example_model \<and> 0 < self_n example_model \<and> 0 < self_m example_model \<and>
   predict_rhat example_model 0 0 = Inr 1 \<and>
   (\<exists>r. predict_rhat example_model 0 0 = Inr r \<and> 1 \<le> r \<and> r \<le> 5)"
proof -
  have h: "shapes_ok example_model" "0 < self_n example_model" "0 < self_m example_model"
    by (simp_all add: example_shapes) (simp_all add: example_model_def)
  have v: "max 1 (min 5 (self_mu example_model + self_b_i example_model ! 0 +
      self_b_u example_model ! 0 +
      (\<Sum>k<self_f example_model. self_q example_model ! k ! 0 * self_p example_model ! k ! 0)))
      = (1 :: real)"
    by (simp add: example_model_def)
  from predict_rhat_clamped [OF h] h show ?thesis unfolding v by simp
qed

section \<open>The gradient step\<close>

lemma update_b_u_Inr:
  "update_b_u s u err = Inr s1 \<longleftrightarrow>
     u < length (self_b_u s) \<and>
     s1 = s\<lparr>self_b_u := (self_b_u s)[u := self_b_u s ! u +
            self_gamma s * (err - self_lambda s * self_b_u s ! u)]\<rparr>"
  by (auto simp: update_b_u_def andthen_eq_Inr vec_get_Inr)

lemma update_b_i_Inr:
  "update_b_i s i err = Inr s1 \<longleftrightarrow>
     i < length (self_b_i s) \<and>
     s1 = s\<lparr>self_b_i := (self_b_i s)[i := self_b_i s ! i +
            self_gamma s * (err - self_lambda s * self_b_i s ! i)]\<rparr>"
  by (auto simp: update_b_i_def andthen_eq_Inr vec_get_Inr)

lemma update_q_Inr:
  "update_q s u i f err = Inr s1 \<longleftrightarrow>
     f < length (self_q s) \<and> i < length (self_q s ! f) \<and>
     f < length (self_p s) \<and> u < length (self_p s ! f) \<and>
     s1 = s\<lparr>self_q := mat_set (self_q s) f i (self_q s ! f ! i +
            self_gamma s * (err * self_p s ! f ! u - self_lambda s * self_q s ! f ! i))\<rparr>"
  by (auto simp: update_q_def andthen_eq_Inr mat_get_Inr)

lemma update_p_Inr:
  "update_p s u i f err = Inr s1 \<longleftrightarrow>
     f < length (self_q s) \<and> i < length (self_q s ! f) \<and>
     f < length (self_p s) \<and> u < length (self_p s ! f) \<and>
     s1 = s\<lparr>self_p := mat_set (self_p s) f u (self_p s ! f ! u +
            self_gamma s * (err * self_q s ! f ! i - self_lambda s * self_p s ! f ! u))\<rparr>"
  by (auto simp: update_p_def andthen_eq_Inr mat_get_Inr)

text \<open>
  What a call of \<^verbatim>\<open>update\<close> that returns has done. The value written to \<open>p[f,u]\<close>
  contains the value just written to \<open>q[f,i]\<close>.
\<close>

lemma update_Inr:
  "update s u i f err = Inr s' \<longleftrightarrow>
     u < length (self_b_u s) \<and> i < length (self_b_i s) \<and>
     f < length (self_q s) \<and> i < length (self_q s ! f) \<and>
     f < length (self_p s) \<and> u < length (self_p s ! f) \<and>
     s' = s\<lparr>self_b_u := (self_b_u s)[u := self_b_u s ! u +
                 self_gamma s * (err - self_lambda s * self_b_u s ! u)],
             self_b_i := (self_b_i s)[i := self_b_i s ! i +
                 self_gamma s * (err - self_lambda s * self_b_i s ! i)],
             self_q := mat_set (self_q s) f i (self_q s ! f ! i +
                 self_gamma s * (err * self_p s ! f ! u - self_lambda s * self_q s ! f ! i)),
             self_p := mat_set (self_p s) f u (self_p s ! f ! u +
                 self_gamma s * (err * (self_q s ! f ! i +
                   self_gamma s * (err * self_p s ! f ! u - self_lambda s * self_q s ! f ! i))
                   - self_lambda s * self_p s ! f ! u))\<rparr>"
  unfolding update_def andthen_eq_Inr update_b_u_Inr update_b_i_Inr update_q_Inr update_p_Inr
  by (auto simp: mat_set_same)

lemma update_returns:
  assumes "shapes_ok s" "u < self_n s" "i < self_m s" "f < self_f s"
  shows "\<exists>s'. update s u i f err = Inr s'"
  using assms unfolding update_Inr shapes_ok_def by (simp add: list_all_length)

lemma update_example:
  "\<exists>s'. update example_model 0 0 0 4 = Inr s'"
  by (rule update_returns [OF example_shapes]) (simp_all add: example_model_def)

text \<open>
  C10. A call \<^verbatim>\<open>update(u, i, f, err)\<close> that returns has changed at most the entries
  \<open>b_u[u]\<close>, \<open>b_i[i]\<close>, \<open>q[f,i]\<close> and \<open>p[f,u]\<close>: every other entry of the four arrays,
  their shapes, the rating matrix, the known pairs, \<open>mu\<close>, \<open>gamma\<close>, \<open>lambda\<close> and
  every other attribute are as before.
\<close>

theorem update_frame:
  assumes "update s u i f err = Inr s'"
  shows "length (self_b_u s') = length (self_b_u s) \<and>
         (\<forall>k. k \<noteq> u \<longrightarrow> self_b_u s' ! k = self_b_u s ! k) \<and>
         length (self_b_i s') = length (self_b_i s) \<and>
         (\<forall>k. k \<noteq> i \<longrightarrow> self_b_i s' ! k = self_b_i s ! k) \<and>
         length (self_q s') = length (self_q s) \<and>
         (\<forall>k. length (self_q s' ! k) = length (self_q s ! k)) \<and>
         (\<forall>k j. (k, j) \<noteq> (f, i) \<longrightarrow> self_q s' ! k ! j = self_q s ! k ! j) \<and>
         length (self_p s') = length (self_p s) \<and>
         (\<forall>k. length (self_p s' ! k) = length (self_p s ! k)) \<and>
         (\<forall>k j. (k, j) \<noteq> (f, u) \<longrightarrow> self_p s' ! k ! j = self_p s ! k ! j) \<and>
         self_R s' = self_R s \<and> self_K_users s' = self_K_users s \<and>
         self_K_items s' = self_K_items s \<and> self_mu s' = self_mu s \<and>
         self_gamma s' = self_gamma s \<and> self_lambda s' = self_lambda s \<and>
         self_f s' = self_f s \<and> self_n s' = self_n s \<and> self_m s' = self_m s \<and>
         self_min_iter s' = self_min_iter s \<and> self_max_iter s' = self_max_iter s \<and>
         self_min_improvement s' = self_min_improvement s \<and>
         self_sse s' = self_sse s \<and> self_rmse s' = self_rmse s \<and> step_log s' = step_log s"
  using assms unfolding update_Inr
  by (simp add: mat_set_other)

theorem update_frame_witness:
  "\<exists>s'. update example_model 0 0 0 4 = Inr s' \<and>
     self_b_u s' ! 1 = self_b_u example_model ! 1 \<and>
     self_b_i s' ! 1 = self_b_i example_model ! 1 \<and>
     self_q s' ! 0 ! 1 = self_q example_model ! 0 ! 1 \<and>
     self_p s' ! 0 ! 1 = self_p example_model ! 0 ! 1 \<and>
     self_R s' = self_R example_model \<and> self_mu s' = self_mu example_model"
proof -
  from update_example obtain s' where u: "update example_model 0 0 0 4 = Inr s'" ..
  note fr = update_frame [OF u]
  have "self_b_u s' ! 1 = self_b_u example_model ! 1"
    using fr [THEN conjunct2, THEN conjunct1] by simp
  moreover have "self_b_i s' ! 1 = self_b_i example_model ! 1"
    using fr [THEN conjunct2, THEN conjunct2, THEN conjunct2, THEN conjunct1] by simp
  moreover have "self_q s' ! 0 ! 1 = self_q example_model ! 0 ! 1"
    using fr by simp
  moreover have "self_p s' ! 0 ! 1 = self_p example_model ! 0 ! 1"
    using fr by simp
  moreover have "self_R s' = self_R example_model \<and> self_mu s' = self_mu example_model"
    using fr by simp
  ultimately show ?thesis using u by blast
qed

text \<open>
  C1, as the code has it. In a call \<^verbatim>\<open>update(u, i, f, err)\<close> that returns, the new
  \<open>q[f,i]\<close> is computed from the values that \<open>q[f,i]\<close> and \<open>p[f,u]\<close> had before the call,
  and the new \<open>p[f,u]\<close> from the old \<open>p[f,u]\<close> and the new \<open>q[f,i]\<close>: the assignment to
  \<open>p\<close> reads \<open>q\<close> after the assignment to \<open>q\<close>.
\<close>

theorem update_p_reads_new_q:
  assumes "update s u i f err = Inr s'"
  shows "self_q s' ! f ! i = self_q s ! f ! i +
           self_gamma s * (err * self_p s ! f ! u - self_lambda s * self_q s ! f ! i) \<and>
         self_p s' ! f ! u = self_p s ! f ! u +
           self_gamma s * (err * self_q s' ! f ! i - self_lambda s * self_p s ! f ! u)"
  using assms unfolding update_Inr by (simp add: mat_set_same)

theorem update_p_reads_new_q_witness:
  "\<exists>s'. update example_model 0 0 0 4 = Inr s' \<and>
     self_p s' ! 0 ! 0 = self_p example_model ! 0 ! 0 + self_gamma example_model *
       (4 * self_q s' ! 0 ! 0 - self_lambda example_model * self_p example_model ! 0 ! 0)"
proof -
  from update_example obtain s' where u: "update example_model 0 0 0 4 = Inr s'" ..
  from update_p_reads_new_q [OF u] u show ?thesis by blast
qed

text \<open>
  The statement of C1 itself fails: in the example, for the first known pair and its
  error \<open>4\<close>, the new \<open>p[0,0]\<close> is not the value computed from the old \<open>q[0,0]\<close>.
\<close>

theorem update_not_simultaneous:
  "get_error example_model 0 0 = Inr 4 \<and>
   (\<exists>s'. update example_model 0 0 0 4 = Inr s' \<and>
     self_p s' ! 0 ! 0 \<noteq> self_p example_model ! 0 ! 0 + self_gamma example_model *
       (4 * self_q example_model ! 0 ! 0 -
        self_lambda example_model * self_p example_model ! 0 ! 0))"
proof
  show "get_error example_model 0 0 = Inr 4"
    by code_simp
  show "\<exists>s'. update example_model 0 0 0 4 = Inr s' \<and>
     self_p s' ! 0 ! 0 \<noteq> self_p example_model ! 0 ! 0 + self_gamma example_model *
       (4 * self_q example_model ! 0 ! 0 -
        self_lambda example_model * self_p example_model ! 0 ! 0)"
    by (simp add: update_Inr example_model_def mat_set_def)
qed

section \<open>Training: invariants of the loops\<close>

text \<open>
  Every loop of \<^verbatim>\<open>train\<close> keeps what \<open>same_setup\<close> lists, keeps \<^verbatim>\<open>sse\<close> equal to
  the sum of the squared errors of the steps made so far, and extends the history by the
  steps it makes.
\<close>

lemma same_setup_refl [simp]: "same_setup s s"
  by (simp add: same_setup_def)

lemma same_setup_trans: "same_setup a b \<Longrightarrow> same_setup b c \<Longrightarrow> same_setup a c"
  by (simp add: same_setup_def)

lemma update_same_setup: "update s u i f err = Inr s' \<Longrightarrow> same_setup s s'"
  by (simp add: update_Inr same_setup_def)

lemma step_Inr:
  "step s feature u i = Inr s1 \<longleftrightarrow>
     (\<exists>err s0 a. get_error s u i = Inr err \<and> update s u i feature err = Inr s0 \<and>
        self_sse s = Some a \<and>
        s1 = s0\<lparr>self_sse := Some (a + err ^ 2),
                 step_log := step_log s @ [(u, i, feature, err)]\<rparr>)"
  unfolding step_def andthen_eq_Inr
  by (auto simp: update_Inr split: option.splits)

lemma step_same_setup: "step s feature u i = Inr s1 \<Longrightarrow> same_setup s s1"
  unfolding step_Inr by (auto simp: update_Inr same_setup_def)

lemma step_sse:
  assumes "step s feature u i = Inr s1"
    and "self_sse s = Some (sum_list (map (\<lambda>(u, i, f, e). e ^ 2) (step_log s)))"
  shows "self_sse s1 = Some (sum_list (map (\<lambda>(u, i, f, e). e ^ 2) (step_log s1)))"
  using assms unfolding step_Inr by (auto simp: update_Inr)

lemma pairs_loop_inv:
  assumes "pairs_loop s feature ks ui = Inr (s1, ui1)"
  shows "same_setup s s1 \<and> ui1 = (if ks = [] then ui else Some (last ks)) \<and>
     (self_sse s = Some (sum_list (map (\<lambda>(u, i, f, e). e ^ 2) (step_log s))) \<longrightarrow>
      self_sse s1 = Some (sum_list (map (\<lambda>(u, i, f, e). e ^ 2) (step_log s1))))"
  using assms
proof (induction ks arbitrary: s ui)
  case Nil
  then show ?case by simp
next
  case (Cons k ks)
  obtain u i where k: "k = (u, i)" by (cases k)
  from Cons.prems obtain s0 where s0: "step s feature u i = Inr s0"
    and rest: "pairs_loop s0 feature ks (Some (u, i)) = Inr (s1, ui1)"
    by (auto simp: k andthen_eq_Inr)
  from Cons.IH [OF rest] step_same_setup [OF s0] step_sse [OF s0]
  show ?case by (auto simp: k intro: same_setup_trans)
qed

lemma epoch_Inr:
  "epoch s feature ui = Inr (s1, ui1, cost) \<longleftrightarrow>
     (\<exists>u i. pairs_loop s feature (zip (self_K_users s) (self_K_items s)) ui = Inr (s1, ui1) \<and>
        ui1 = Some (u, i) \<and> compute_cost s1 u i = Inr cost)"
  unfolding epoch_def andthen_eq_Inr
  by (auto split: option.splits simp: andthen_eq_Inr)

lemma epoch_inv:
  assumes "epoch s feature ui = Inr (s1, ui1, cost)"
  shows "same_setup s s1 \<and>
     (self_sse s = Some (sum_list (map (\<lambda>(u, i, f, e). e ^ 2) (step_log s))) \<longrightarrow>
      self_sse s1 = Some (sum_list (map (\<lambda>(u, i, f, e). e ^ 2) (step_log s1))))"
  using assms pairs_loop_inv unfolding epoch_Inr by blast

lemma epochs_loop_nonempty:
  assumes "epochs_loop hi s feature n cost ui = Inr (s', cost', ui', history)" "int n < hi"
  shows "history \<noteq> []"
  using assms
  by (subst (asm) epochs_loop.simps) (auto split: sum.splits prod.splits if_splits)

lemma epochs_loop_history:
  assumes "epochs_loop hi s feature n cost ui = Inr (s', cost', ui', history)"
  shows "same_setup s s' \<and>
     (self_sse s = Some (sum_list (map (\<lambda>(u, i, f, e). e ^ 2) (step_log s))) \<longrightarrow>
      self_sse s' = Some (sum_list (map (\<lambda>(u, i, f, e). e ^ 2) (step_log s')))) \<and>
     int n + int (length history) \<le> max hi (int n) \<and>
     (\<forall>k<length history.
        (self_min_iter s \<le> int (n + k) \<and>
         snd (history ! k) > fst (history ! k) - self_min_improvement s)
        \<longrightarrow> Suc k = length history) \<and>
     (\<forall>k<length history.
        \<not> (self_min_iter s \<le> int (n + k) \<and>
         snd (history ! k) > fst (history ! k) - self_min_improvement s)
        \<and> int (n + k) + 1 < hi \<longrightarrow> Suc k < length history) \<and>
     (history \<noteq> [] \<longrightarrow> fst (hd history) = cost \<and> snd (last history) = cost') \<and>
     (history = [] \<longrightarrow> cost' = cost \<and> s' = s \<and> ui' = ui) \<and>
     (\<forall>k. Suc k < length history \<longrightarrow> fst (history ! Suc k) = snd (history ! k))"
  using assms
proof (induction hi s feature n cost ui arbitrary: s' cost' ui' history rule: epochs_loop.induct)
  case (1 hi s feature n cost ui)
  show ?case
  proof (cases "int n < hi")
    case False
    with "1.prems" show ?thesis
      by (subst (asm) epochs_loop.simps) simp
  next
    case True
    from "1.prems" True obtain s1 ui1 cost1 where ep: "epoch s feature ui = Inr (s1, ui1, cost1)"
      by (subst (asm) epochs_loop.simps) (auto split: sum.splits)
    note inv = epoch_inv [OF ep]
    then have cfg: "same_setup s s1" by simp
    then have mi: "self_min_iter s1 = self_min_iter s"
      "self_min_improvement s1 = self_min_improvement s"
      by (simp_all add: same_setup_def)
    show ?thesis
    proof (cases "self_min_iter s \<le> int n \<and> cost1 > cost - self_min_improvement s")
      case stop: True
      with "1.prems" True ep mi have res: "s' = s1" "cost' = cost1" "ui' = ui1" "history = [(cost, cost1)]"
        by (subst (asm) epochs_loop.simps, simp)+
      show ?thesis using inv stop True unfolding res by simp
    next
      case go: False
      with "1.prems" True ep mi obtain h where
        rec: "epochs_loop hi s1 feature (Suc n) cost1 ui1 = Inr (s', cost', ui', h)"
        and hist: "history = (cost, cost1) # h"
        by (subst (asm) epochs_loop.simps) (auto split: sum.splits)
      have go': "\<not> (self_min_iter s1 \<le> int n \<and> cost - self_min_improvement s1 < cost1)"
        using go mi by simp
      note ih = "1.IH" [OF True refl ep refl refl go' rec]
      note ih1 = ih [THEN conjunct1]
      note ih2 = ih [THEN conjunct2, THEN conjunct1]
      note ih3 = ih [THEN conjunct2, THEN conjunct2, THEN conjunct1]
      note ih4 = ih [THEN conjunct2, THEN conjunct2, THEN conjunct2, THEN conjunct1, rule_format]
      note ih5 = ih [THEN conjunct2, THEN conjunct2, THEN conjunct2, THEN conjunct2,
          THEN conjunct1, rule_format]
      note ih6 = ih [THEN conjunct2, THEN conjunct2, THEN conjunct2, THEN conjunct2,
          THEN conjunct2, THEN conjunct1, rule_format]
      note ih8 = ih [THEN conjunct2, THEN conjunct2, THEN conjunct2, THEN conjunct2,
          THEN conjunct2, THEN conjunct2, THEN conjunct2, rule_format]
      have ne: "int (Suc n) < hi \<Longrightarrow> h \<noteq> []"
        using epochs_loop_nonempty [OF rec] by simp
      have a: "same_setup s s'" using cfg ih1 by (rule same_setup_trans)
      have b: "self_sse s = Some (sum_list (map (\<lambda>(u, i, f, e). e ^ 2) (step_log s))) \<longrightarrow>
          self_sse s' = Some (sum_list (map (\<lambda>(u, i, f, e). e ^ 2) (step_log s')))"
        using inv [THEN conjunct2] ih2 by blast
      have c: "int n + int (length history) \<le> max hi (int n)"
        using ih3 True by (simp add: hist)
      have d: "Suc k = length history"
        if k: "k < length history" and st: "self_min_iter s \<le> int (n + k) \<and>
         snd (history ! k) > fst (history ! k) - self_min_improvement s" for k
      proof (cases k)
        case 0
        with st go show ?thesis by (simp add: hist)
      next
        case (Suc j)
        have "Suc j = length h"
          using k st mi unfolding Suc hist by (intro ih4 [of j]) simp_all
        then show ?thesis by (simp add: hist Suc)
      qed
      have e: "Suc k < length history"
        if k: "k < length history" and st: "\<not> (self_min_iter s \<le> int (n + k) \<and>
         snd (history ! k) > fst (history ! k) - self_min_improvement s)
        \<and> int (n + k) + 1 < hi" for k
      proof (cases k)
        case 0
        with st ne show ?thesis by (simp add: hist)
      next
        case (Suc j)
        have "Suc j < length h"
          using k st mi unfolding Suc hist by (intro ih5 [of j]) simp_all
        then show ?thesis by (simp add: hist Suc)
      qed
      have f: "history \<noteq> [] \<longrightarrow> fst (hd history) = cost \<and> snd (last history) = cost'"
        using ih6 ih [THEN conjunct2, THEN conjunct2, THEN conjunct2, THEN conjunct2,
          THEN conjunct2, THEN conjunct2, THEN conjunct1]
        by (cases "h = []") (simp_all add: hist)
      have g: "fst (history ! Suc k) = snd (history ! k)" if k: "Suc k < length history" for k
      proof (cases k)
        case 0
        with k have "h \<noteq> []" by (auto simp: hist)
        with ih6 have "fst (hd h) = cost1" by simp
        with \<open>h \<noteq> []\<close> show ?thesis by (simp add: hist 0 hd_conv_nth)
      next
        case (Suc j)
        with k have "fst (h ! Suc j) = snd (h ! j)" by (intro ih8) (simp add: hist)
        then show ?thesis by (simp add: hist Suc)
      qed
      have hne: "history \<noteq> []" by (simp add: hist)
      show ?thesis
        apply (intro conjI allI impI)
        subgoal by (rule a)
        subgoal using b by simp
        subgoal by (rule c)
        subgoal for k using d [of k] by simp
        subgoal for k using e [of k] by simp
        subgoal using f by simp
        subgoal using f by simp
        subgoal using hne by simp
        subgoal using hne by simp
        subgoal using hne by simp
        subgoal for k using g [of k] by simp
        done
    qed
  qed
qed



lemma step_logged:
  "step s feature u i = Inr s1 \<Longrightarrow> logged s1 = logged s @ [(u, i, feature)]"
  unfolding step_Inr by (auto simp: logged_def)

lemma pairs_loop_logged:
  "pairs_loop s feature ks ui = Inr (s1, ui1) \<Longrightarrow>
   logged s1 = logged s @ map (\<lambda>(u, i). (u, i, feature)) ks"
proof (induction ks arbitrary: s ui)
  case Nil
  then show ?case by simp
next
  case (Cons k ks)
  obtain u i where k: "k = (u, i)" by (cases k)
  from Cons.prems obtain s0 where s0: "step s feature u i = Inr s0"
    and rest: "pairs_loop s0 feature ks (Some (u, i)) = Inr (s1, ui1)"
    by (auto simp: k andthen_eq_Inr)
  from Cons.IH [OF rest] step_logged [OF s0] show ?case by (simp add: k)
qed

lemma epoch_logged:
  "epoch s feature ui = Inr (s1, ui1, cost) \<Longrightarrow>
   logged s1 = logged s @ map (\<lambda>(u, i). (u, i, feature)) (zip (self_K_users s) (self_K_items s))"
  unfolding epoch_Inr using pairs_loop_logged by auto

lemma passes_same_setup: "same_setup s s1 \<Longrightarrow> passes s1 feature c = passes s feature c"
  by (simp add: passes_def same_setup_def)

lemma passes_Suc:
  "passes s feature (Suc c) =
     map (\<lambda>(u, i). (u, i, feature)) (zip (self_K_users s) (self_K_items s)) @ passes s feature c"
  by (simp add: passes_def)

lemma epochs_loop_logged:
  "epochs_loop hi s feature n cost ui = Inr (s', cost', ui', history) \<Longrightarrow>
   logged s' = logged s @ passes s feature (length history)"
proof (induction hi s feature n cost ui arbitrary: s' cost' ui' history rule: epochs_loop.induct)
  case (1 hi s feature n cost ui)
  show ?case
  proof (cases "int n < hi")
    case False
    with "1.prems" show ?thesis
      by (subst (asm) epochs_loop.simps) (simp add: passes_def)
  next
    case True
    from "1.prems" True obtain s1 ui1 cost1 where ep: "epoch s feature ui = Inr (s1, ui1, cost1)"
      by (subst (asm) epochs_loop.simps) (auto split: sum.splits)
    note lg = epoch_logged [OF ep]
    have cfg: "same_setup s s1" using epoch_inv [OF ep] by simp
    show ?thesis
    proof (cases "self_min_iter s1 \<le> int n \<and> cost1 > cost - self_min_improvement s1")
      case stop: True
      with "1.prems" True ep have res: "s' = s1" "history = [(cost, cost1)]"
        by (subst (asm) epochs_loop.simps, simp)+
      show ?thesis using lg unfolding res by (simp add: passes_def)
    next
      case go: False
      with "1.prems" True ep obtain h where
        rec: "epochs_loop hi s1 feature (Suc n) cost1 ui1 = Inr (s', cost', ui', h)"
        and hist: "history = (cost, cost1) # h"
        by (subst (asm) epochs_loop.simps) (auto split: sum.splits)
      have "logged s' = logged s1 @ passes s1 feature (length h)"
        by (rule "1.IH" [OF True refl ep refl refl go rec])
      then show ?thesis
        using lg passes_same_setup [OF cfg] by (simp add: hist passes_Suc)
    qed
  qed
qed

lemma all_passes_same_setup:
  "same_setup s s1 \<Longrightarrow> all_passes s1 fs cs = all_passes s fs cs"
  by (induction s fs cs rule: all_passes.induct) (simp_all add: passes_same_setup)

lemma features_loop_inv:
  assumes "features_loop s fs cost ui = Inr (s', cost', ui')"
  shows "same_setup s s' \<and> (sse_is_sum s \<longrightarrow> sse_is_sum s') \<and>
     (\<exists>cs. length cs = length fs \<and> list_all (\<lambda>c. int c \<le> max 0 (self_max_iter s)) cs \<and>
        logged s' = logged s @ all_passes s fs cs)"
  using assms
proof (induction fs arbitrary: s cost ui)
  case Nil
  then show ?case by simp
next
  case (Cons feature fs)
  from Cons.prems obtain s1 cost1 ui1 h where
    ep: "epochs_loop (self_max_iter s) s feature 0 cost ui = Inr (s1, cost1, ui1, h)"
    and rest: "features_loop s1 fs cost1 ui1 = Inr (s', cost', ui')"
    by (auto split: sum.splits)
  note e = epochs_loop_history [OF ep]
  have cfg: "same_setup s s1" using e by simp
  have sse: "sse_is_sum s \<longrightarrow> sse_is_sum s1"
    using e [THEN conjunct2, THEN conjunct1] by (simp add: sse_is_sum_def)
  have bound: "int (length h) \<le> max 0 (self_max_iter s)"
    using e [THEN conjunct2, THEN conjunct2, THEN conjunct1] by simp
  have lg: "logged s1 = logged s @ passes s feature (length h)"
    by (rule epochs_loop_logged [OF ep])
  from Cons.IH [OF rest] obtain cs where
    ih1: "same_setup s1 s'" and ih2: "sse_is_sum s1 \<longrightarrow> sse_is_sum s'"
    and cs: "length cs = length fs" "list_all (\<lambda>c. int c \<le> max 0 (self_max_iter s1)) cs"
    "logged s' = logged s1 @ all_passes s1 fs cs"
    by blast
  have mi: "self_max_iter s1 = self_max_iter s" using cfg by (simp add: same_setup_def)
  have "length (length h # cs) = length (feature # fs) \<and>
      list_all (\<lambda>c. int c \<le> max 0 (self_max_iter s)) (length h # cs) \<and>
      logged s' = logged s @ all_passes s (feature # fs) (length h # cs)"
    using cs bound lg all_passes_same_setup [OF cfg] by (simp add: mi)
  then have "\<exists>cs. length cs = length (feature # fs) \<and>
      list_all (\<lambda>c. int c \<le> max 0 (self_max_iter s)) cs \<and>
      logged s' = logged s @ all_passes s (feature # fs) cs" by blast
  with same_setup_trans [OF cfg ih1] sse ih2 show ?case by blast
qed

section \<open>Training: the loops return\<close>

text \<open>
  On an object with the shapes of the constructor whose known pairs are positions of the
  arrays, no array access of \<^verbatim>\<open>train\<close> is out of range and every loop returns.
\<close>

lemma list_all_mat_set:
  "list_all (\<lambda>row. length row = w) a \<Longrightarrow> list_all (\<lambda>row. length row = w) (mat_set a r c v)"
  by (simp add: list_all_length)

lemma update_shapes:
  assumes "update s u i f err = Inr s'" "shapes_ok s"
  shows "shapes_ok s'"
  using assms unfolding update_Inr shapes_ok_def by (simp add: list_all_mat_set)

lemma get_rating_returns:
  assumes "shapes_ok s" "u < self_n s" "i < self_m s"
  shows "get_rating s u i = Inr (self_R s ! u ! i)"
proof -
  have u: "u < length (self_R s)" using assms by (simp add: shapes_ok_def)
  have "list_all (\<lambda>row. self_m s \<le> length row) (self_R s)"
    using assms by (simp add: shapes_ok_def)
  with u have "self_m s \<le> length (self_R s ! u)" by (simp add: list_all_length)
  with assms(3) u show ?thesis by (simp add: get_rating_def mat_get_def)
qed

lemma predict_rhat_returns:
  assumes "shapes_ok s" "u < self_n s" "i < self_m s"
  shows "\<exists>r. predict_rhat s u i = Inr r"
proof -
  have q: "column (self_q s) i = Inr (map (\<lambda>row. row ! i) (self_q s))"
    using assms unfolding shapes_ok_def by (intro column_ok [where w = "self_m s"]) auto
  have p: "column (self_p s) u = Inr (map (\<lambda>row. row ! u) (self_p s))"
    using assms unfolding shapes_ok_def by (intro column_ok [where w = "self_n s"]) auto
  show ?thesis
    using assms unfolding predict_rhat_def
    by (simp add: q p dot_def vec_get_def shapes_ok_def Let_def)
qed

lemma get_error_returns:
  assumes "shapes_ok s" "u < self_n s" "i < self_m s"
  shows "\<exists>err. get_error s u i = Inr err"
  using predict_rhat_returns [OF assms] get_rating_returns [OF assms]
  by (auto simp: get_error_def)

lemma compute_cost_returns:
  assumes "shapes_ok s" "u < self_n s" "i < self_m s"
  shows "\<exists>c. compute_cost s u i = Inr c"
proof -
  have q: "column (self_q s) i = Inr (map (\<lambda>row. row ! i) (self_q s))"
    using assms unfolding shapes_ok_def by (intro column_ok [where w = "self_m s"]) auto
  have p: "column (self_p s) u = Inr (map (\<lambda>row. row ! u) (self_p s))"
    using assms unfolding shapes_ok_def by (intro column_ok [where w = "self_n s"]) auto
  show ?thesis
    using assms get_rating_returns [OF assms] unfolding compute_cost_def
    by (simp add: q p dot_def vec_get_def shapes_ok_def Let_def)
qed

lemma step_returns:
  assumes "shapes_ok s" "u < self_n s" "i < self_m s" "feature < self_f s" "self_sse s \<noteq> None"
  shows "\<exists>s1. step s feature u i = Inr s1 \<and> shapes_ok s1 \<and> self_sse s1 \<noteq> None"
proof -
  from get_error_returns [OF assms(1-3)] obtain err where e: "get_error s u i = Inr err" ..
  from update_returns [OF assms(1-4)] obtain s0 where u: "update s u i feature err = Inr s0" ..
  from assms(5) obtain a where a: "self_sse s = Some a" by auto
  have sh: "shapes_ok s0" by (rule update_shapes [OF u assms(1)])
  have "self_sse s0 = Some a" using u a by (simp add: update_Inr)
  then have st: "step s feature u i =
      Inr (s0\<lparr>self_sse := Some (a + err ^ 2), step_log := step_log s0 @ [(u, i, feature, err)]\<rparr>)"
    by (simp add: step_def e u)
  show ?thesis unfolding st using sh by (simp add: shapes_ok_def)
qed

lemma pairs_loop_returns:
  assumes "shapes_ok s" "feature < self_f s" "self_sse s \<noteq> None"
    "list_all (\<lambda>(u, i). u < self_n s \<and> i < self_m s) ks"
  shows "\<exists>s1 ui1. pairs_loop s feature ks ui = Inr (s1, ui1) \<and> shapes_ok s1 \<and>
     self_sse s1 \<noteq> None"
  using assms
proof (induction ks arbitrary: s ui)
  case Nil
  then show ?case by simp
next
  case (Cons k ks)
  obtain u i where k: "k = (u, i)" by (cases k)
  from Cons.prems have ui: "u < self_n s" "i < self_m s" by (simp_all add: k)
  from step_returns [OF Cons.prems(1) ui Cons.prems(2,3)] obtain s0 where
    s0: "step s feature u i = Inr s0" "shapes_ok s0" "self_sse s0 \<noteq> None" by blast
  have cfg: "same_setup s s0" by (rule step_same_setup [OF s0(1)])
  then have eqs: "self_f s0 = self_f s" "self_n s0 = self_n s" "self_m s0 = self_m s"
    by (simp_all add: same_setup_def)
  have "list_all (\<lambda>(u, i). u < self_n s0 \<and> i < self_m s0) ks"
    using Cons.prems(4) by (simp add: eqs)
  from Cons.IH [OF s0(2) _ s0(3) this, of "Some (u, i)"] Cons.prems(2)
  show ?case by (simp add: k s0(1) eqs)
qed

lemma epoch_returns:
  assumes "shapes_ok s" "pairs_ok s" "feature < self_f s" "self_sse s \<noteq> None"
    "zip (self_K_users s) (self_K_items s) \<noteq> []"
  shows "\<exists>s1 ui1 c. epoch s feature ui = Inr (s1, ui1, c) \<and> shapes_ok s1 \<and>
     self_sse s1 \<noteq> None"
proof -
  let ?ks = "zip (self_K_users s) (self_K_items s)"
  from pairs_loop_returns [OF assms(1,3,4), of ?ks ui] assms(2) obtain s1 ui1 where
    pl: "pairs_loop s feature ?ks ui = Inr (s1, ui1)" "shapes_ok s1" "self_sse s1 \<noteq> None"
    by (auto simp: pairs_ok_def)
  from pairs_loop_inv [OF pl(1)] assms(5) have cfg: "same_setup s s1"
    and last: "ui1 = Some (last ?ks)" by simp_all
  obtain u i where l: "last ?ks = (u, i)" by (cases "last ?ks")
  have "(u, i) \<in> set ?ks" using assms(5) l last_in_set by metis
  with assms(2) have "u < self_n s" "i < self_m s" by (auto simp: pairs_ok_def list_all_iff)
  with cfg have "u < self_n s1" "i < self_m s1" by (simp_all add: same_setup_def)
  from compute_cost_returns [OF pl(2) this] obtain c where "compute_cost s1 u i = Inr c" ..
  then have "epoch s feature ui = Inr (s1, ui1, c)"
    by (simp add: epoch_def pl(1) last l)
  with pl show ?thesis by blast
qed

lemma epochs_loop_returns:
  assumes "shapes_ok s" "pairs_ok s" "feature < self_f s" "self_sse s \<noteq> None"
    "zip (self_K_users s) (self_K_items s) \<noteq> []"
  shows "\<exists>s' c ui' h. epochs_loop hi s feature n cost ui = Inr (s', c, ui', h) \<and>
     shapes_ok s' \<and> self_sse s' \<noteq> None"
  using assms
proof (induction hi s feature n cost ui rule: epochs_loop.induct)
  case (1 hi s feature n cost ui)
  show ?case
  proof (cases "int n < hi")
    case False
    then show ?thesis using "1.prems" by (subst epochs_loop.simps) simp
  next
    case True
    from epoch_returns [OF "1.prems", of ui] obtain s1 ui1 c1 where
      ep: "epoch s feature ui = Inr (s1, ui1, c1)" "shapes_ok s1" "self_sse s1 \<noteq> None"
      by blast
    have cfg: "same_setup s s1" using epoch_inv [OF ep(1)] by simp
    show ?thesis
    proof (cases "self_min_iter s1 \<le> int n \<and> c1 > cost - self_min_improvement s1")
      case stop: True
      then show ?thesis using True ep by (subst epochs_loop.simps) simp
    next
      case go: False
      have pre: "pairs_ok s1" "feature < self_f s1"
        "zip (self_K_users s1) (self_K_items s1) \<noteq> []"
        using cfg "1.prems" by (simp_all add: same_setup_def pairs_ok_def)
      from "1.IH" [OF True refl ep(1) refl refl go ep(2) pre(1,2) ep(3) pre(3)]
      obtain s' c ui' h where
        "epochs_loop hi s1 feature (Suc n) c1 ui1 = Inr (s', c, ui', h)"
        "shapes_ok s'" "self_sse s' \<noteq> None" by blast
      then show ?thesis using True ep go by (subst epochs_loop.simps) simp
    qed
  qed
qed

lemma features_loop_returns:
  assumes "shapes_ok s" "pairs_ok s" "list_all (\<lambda>feature. feature < self_f s) fs"
    "self_sse s \<noteq> None" "zip (self_K_users s) (self_K_items s) \<noteq> []"
  shows "\<exists>s' c ui'. features_loop s fs cost ui = Inr (s', c, ui') \<and> self_sse s' \<noteq> None"
  using assms
proof (induction fs arbitrary: s cost ui)
  case Nil
  then show ?case by simp
next
  case (Cons feature fs)
  from Cons.prems(3) have ft: "feature < self_f s" by simp
  from epochs_loop_returns [OF Cons.prems(1,2) ft Cons.prems(4,5),
      of "self_max_iter s" 0 cost ui]
  obtain s1 c1 ui1 h where
    ep: "epochs_loop (self_max_iter s) s feature 0 cost ui = Inr (s1, c1, ui1, h)"
    "shapes_ok s1" "self_sse s1 \<noteq> None" by blast
  have cfg: "same_setup s s1" using epochs_loop_history [OF ep(1)] by simp
  have pre: "pairs_ok s1" "list_all (\<lambda>feature. feature < self_f s1) fs"
    "zip (self_K_users s1) (self_K_items s1) \<noteq> []"
    using cfg Cons.prems by (simp_all add: same_setup_def pairs_ok_def)
  from Cons.IH [OF ep(2) pre(1,2) ep(3) pre(3), of c1 ui1]
  show ?case by (simp add: ep(1))
qed

lemma train_returns:
  assumes "shapes_ok s" "pairs_ok s" "self_K_users s \<noteq> []" "self_K_items s \<noteq> []"
  shows "\<exists>s'. train s = Inr s'"
proof -
  let ?s0 = "s\<lparr>self_sse := Some 0, step_log := []\<rparr>"
  have z: "zip (self_K_users s) (self_K_items s) \<noteq> []"
    using assms(3,4) by (cases "self_K_users s"; cases "self_K_items s") simp_all
  have pre: "shapes_ok ?s0" "pairs_ok ?s0" "list_all (\<lambda>feature. feature < self_f ?s0) [0..<self_f s]"
    "self_sse ?s0 \<noteq> None" "zip (self_K_users ?s0) (self_K_items ?s0) \<noteq> []"
    using assms z by (simp_all add: shapes_ok_def pairs_ok_def list_all_iff)
  from features_loop_returns [OF pre, of 2 None] obtain s1 c ui1 a where
    "features_loop ?s0 [0..<self_f s] 2 None = Inr (s1, c, ui1)" "self_sse s1 = Some a"
    by auto
  then show ?thesis using assms(4) by (simp add: train_def Let_def)
qed

section \<open>Training: what the loops compute\<close>

text \<open>
  Neither \<^verbatim>\<open>get_error\<close> nor \<^verbatim>\<open>update\<close> reads \<^verbatim>\<open>sse\<close> or the history, so the
  steps of a loop are the steps of \<open>run_steps\<close>; every loop of \<^verbatim>\<open>train\<close> adds to
  \<^verbatim>\<open>sse\<close> the squared errors of exactly the steps it makes. The loop over the epochs
  ends in the state, and with the costs, of running as many epochs as it has run.
\<close>

lemma get_error_ignores_sums [simp]:
  "get_error (s\<lparr>self_sse := a, step_log := l\<rparr>) u i = get_error s u i"
  by (simp add: get_error_def get_rating_def predict_rhat_def)

lemma update_returns_iff:
  "(\<exists>t. update s u i f err = Inr t) \<longleftrightarrow>
     u < length (self_b_u s) \<and> i < length (self_b_i s) \<and>
     f < length (self_q s) \<and> i < length (self_q s ! f) \<and>
     f < length (self_p s) \<and> u < length (self_p s ! f)"
  unfolding update_Inr by simp

lemma update_ignores_sums:
  "update (s\<lparr>self_sse := a, step_log := l\<rparr>) u i f err =
     (case update s u i f err of Inl e \<Rightarrow> Inl e
      | Inr t \<Rightarrow> Inr (t\<lparr>self_sse := a, step_log := l\<rparr>))"
proof (cases "update s u i f err")
  case (Inr t)
  then have "update (s\<lparr>self_sse := a, step_log := l\<rparr>) u i f err =
      Inr (t\<lparr>self_sse := a, step_log := l\<rparr>)"
    unfolding update_Inr by simp
  with Inr show ?thesis by simp
next
  case (Inl e)
  then have "\<not> (\<exists>t. update s u i f err = Inr t)" by simp
  then have "\<not> (\<exists>t. update (s\<lparr>self_sse := a, step_log := l\<rparr>) u i f err = Inr t)"
    unfolding update_returns_iff by simp
  then obtain e' where e': "update (s\<lparr>self_sse := a, step_log := l\<rparr>) u i f err = Inl e'"
    by (cases "update (s\<lparr>self_sse := a, step_log := l\<rparr>) u i f err") auto
  have "e' = IndexError"
    using e'
    by (auto simp: update_def update_b_u_def update_b_i_def update_q_def update_p_def
        andthen_def vec_get_def mat_get_def split: sum.splits if_splits)
  moreover have "e = IndexError"
    using Inl
    by (auto simp: update_def update_b_u_def update_b_i_def update_q_def update_p_def
        andthen_def vec_get_def mat_get_def split: sum.splits if_splits)
  ultimately show ?thesis using Inl e' by simp
qed

lemma run_steps_ignores_sums:
  "run_steps (s\<lparr>self_sse := a, step_log := l\<rparr>) xs =
     (case run_steps s xs of Inl e \<Rightarrow> Inl e
      | Inr (t, errs) \<Rightarrow> Inr (t\<lparr>self_sse := a, step_log := l\<rparr>, errs))"
proof (induction xs arbitrary: s)
  case Nil
  then show ?case by simp
next
  case (Cons x xs)
  obtain u i f where x: "x = (u, i, f)" by (cases x)
  show ?case
  proof (cases "get_error s u i")
    case (Inl e)
    then show ?thesis by (simp add: x)
  next
    case (Inr err)
    show ?thesis
    proof (cases "update s u i f err")
      case (Inl e)
      then show ?thesis using Inr by (simp add: x update_ignores_sums)
    next
      case u: (Inr s1)
      show ?thesis
        using Inr u Cons.IH [of s1]
        by (cases "run_steps s1 xs") (auto simp: x update_ignores_sums)
    qed
  qed
qed

lemma run_steps_length:
  "run_steps s xs = Inr (t, errs) \<Longrightarrow> length errs = length xs"
proof (induction xs arbitrary: s t errs)
  case Nil
  then show ?case by simp
next
  case (Cons x xs)
  obtain u i f where x: "x = (u, i, f)" by (cases x)
  from Cons.prems obtain err s1 t1 errs1 where
    "run_steps s1 xs = Inr (t1, errs1)" "errs = err # errs1"
    by (auto simp: x andthen_eq_Inr)
  with Cons.IH show ?case by auto
qed

lemma run_steps_append:
  assumes "run_steps s xs = Inr (t, errs)" "run_steps t ys = Inr (t', errs')"
  shows "run_steps s (xs @ ys) = Inr (t', errs @ errs')"
  using assms
proof (induction xs arbitrary: s errs)
  case Nil
  then show ?case by simp
next
  case (Cons x xs)
  obtain u i f where x: "x = (u, i, f)" by (cases x)
  from Cons.prems(1) obtain err s1 errs1 where
    e: "get_error s u i = Inr err" and u: "update s u i f err = Inr s1"
    and r: "run_steps s1 xs = Inr (t, errs1)" and es: "errs = err # errs1"
    by (auto simp: x andthen_eq_Inr)
  from Cons.IH [OF r Cons.prems(2)] show ?case by (simp add: x e u es)
qed

lemma log_entries_append:
  "length xs = length errs \<Longrightarrow>
   log_entries (xs @ ys) (errs @ errs') = log_entries xs errs @ log_entries ys errs'"
  by (simp add: log_entries_def)

lemma accum_refl: "self_sse s \<noteq> None \<Longrightarrow> accum s [] s"
  by (auto simp: accum_def log_entries_def)

lemma accum_trans:
  assumes "accum s xs s1" "accum s1 ys s2"
  shows "accum s (xs @ ys) s2"
proof -
  from assms(1) obtain a t errs where
    a: "self_sse s = Some a" and r: "run_steps s xs = Inr (t, errs)"
    and s1: "s1 = t\<lparr>self_sse := Some (a + sum_list (map (\<lambda>e. e ^ 2) errs)),
               step_log := step_log s @ log_entries xs errs\<rparr>"
    unfolding accum_def by blast
  from assms(2) obtain t' errs' where
    r': "run_steps s1 ys = Inr (t', errs')"
    and s2: "s2 = t'\<lparr>self_sse := Some (a + sum_list (map (\<lambda>e. e ^ 2) errs)
                  + sum_list (map (\<lambda>e. e ^ 2) errs')),
               step_log := (step_log s @ log_entries xs errs) @ log_entries ys errs'\<rparr>"
    unfolding accum_def by (auto simp: s1)
  from r' obtain t0 where r0: "run_steps t ys = Inr (t0, errs')"
    and t': "t' = t0\<lparr>self_sse := Some (a + sum_list (map (\<lambda>e. e ^ 2) errs)),
               step_log := step_log s @ log_entries xs errs\<rparr>"
    unfolding s1 run_steps_ignores_sums by (auto split: sum.splits)
  have len: "length xs = length errs" using run_steps_length [OF r] by simp
  have "run_steps s (xs @ ys) = Inr (t0, errs @ errs')"
    by (rule run_steps_append [OF r r0])
  moreover have "s2 = t0\<lparr>self_sse := Some (a + sum_list (map (\<lambda>e. e ^ 2) (errs @ errs'))),
               step_log := step_log s @ log_entries (xs @ ys) (errs @ errs')\<rparr>"
    unfolding s2 t' by (simp add: log_entries_append [OF len] add.assoc)
  ultimately show ?thesis unfolding accum_def using a by blast
qed

lemma step_accum:
  assumes "step s feature u i = Inr s1"
  shows "accum s [(u, i, feature)] s1"
proof -
  from assms obtain err s0 a where
    "get_error s u i = Inr err" "update s u i feature err = Inr s0" "self_sse s = Some a"
    "s1 = s0\<lparr>self_sse := Some (a + err ^ 2),
                 step_log := step_log s @ [(u, i, feature, err)]\<rparr>"
    unfolding step_Inr by blast
  then show ?thesis
    unfolding accum_def by (auto simp: log_entries_def)
qed

lemma pairs_loop_accum:
  assumes "pairs_loop s feature ks ui = Inr (s1, ui1)" "self_sse s \<noteq> None"
  shows "accum s (map (\<lambda>(u, i). (u, i, feature)) ks) s1"
  using assms
proof (induction ks arbitrary: s ui)
  case Nil
  then show ?case by (simp add: accum_refl)
next
  case (Cons k ks)
  obtain u i where k: "k = (u, i)" by (cases k)
  from Cons.prems obtain s0 where s0: "step s feature u i = Inr s0"
    and rest: "pairs_loop s0 feature ks (Some (u, i)) = Inr (s1, ui1)"
    by (auto simp: k andthen_eq_Inr)
  have "self_sse s0 \<noteq> None" using s0 unfolding step_Inr by auto
  from accum_trans [OF step_accum [OF s0] Cons.IH [OF rest this]]
  show ?case by (simp add: k)
qed

lemma accum_sse: "accum s xs s' \<Longrightarrow> self_sse s' \<noteq> None"
  by (auto simp: accum_def)

lemma epoch_accum:
  assumes "epoch s feature ui = Inr (s1, ui1, c)" "self_sse s \<noteq> None"
  shows "accum s (passes s feature 1) s1"
  using assms pairs_loop_accum unfolding epoch_Inr passes_def by auto

lemma passes_add: "passes s feature (a + b) = passes s feature a @ passes s feature b"
  by (simp add: passes_def replicate_add)

lemma epochs_loop_accum:
  assumes "epochs_loop hi s feature n cost ui = Inr (s', cost', ui', history)"
    "self_sse s \<noteq> None"
  shows "accum s (passes s feature (length history)) s'"
  using assms
proof (induction hi s feature n cost ui arbitrary: s' cost' ui' history rule: epochs_loop.induct)
  case (1 hi s feature n cost ui)
  show ?case
  proof (cases "int n < hi")
    case False
    with "1.prems" show ?thesis
      by (subst (asm) epochs_loop.simps) (simp add: passes_def accum_refl)
  next
    case True
    from "1.prems" True obtain s1 ui1 cost1 where ep: "epoch s feature ui = Inr (s1, ui1, cost1)"
      by (subst (asm) epochs_loop.simps) (auto split: sum.splits)
    note ac = epoch_accum [OF ep "1.prems"(2)]
    have cfg: "same_setup s s1" using epoch_inv [OF ep] by simp
    show ?thesis
    proof (cases "self_min_iter s1 \<le> int n \<and> cost1 > cost - self_min_improvement s1")
      case stop: True
      with "1.prems" True ep have res: "s' = s1" "history = [(cost, cost1)]"
        by (subst (asm) epochs_loop.simps, simp)+
      show ?thesis using ac unfolding res by simp
    next
      case go: False
      with "1.prems" True ep obtain h where
        rec: "epochs_loop hi s1 feature (Suc n) cost1 ui1 = Inr (s', cost', ui', h)"
        and hist: "history = (cost, cost1) # h"
        by (subst (asm) epochs_loop.simps) (auto split: sum.splits)
      have "accum s1 (passes s1 feature (length h)) s'"
        by (rule "1.IH" [OF True refl ep refl refl go rec accum_sse [OF ac]])
      then have "accum s1 (passes s feature (length h)) s'"
        by (simp add: passes_same_setup [OF cfg])
      from accum_trans [OF ac this] show ?thesis
        by (simp add: hist passes_add [symmetric])
    qed
  qed
qed

lemma epochs_loop_run:
  assumes "epochs_loop hi s feature n cost ui = Inr (s', cost', ui', history)"
  shows "run_epochs s feature ui (length history) = Inr (s', ui', map snd history) \<and>
     history = zip (cost # map snd history) (map snd history) \<and>
     cost' = last (cost # map snd history)"
  using assms
proof (induction hi s feature n cost ui arbitrary: s' cost' ui' history rule: epochs_loop.induct)
  case (1 hi s feature n cost ui)
  show ?case
  proof (cases "int n < hi")
    case False
    with "1.prems" show ?thesis
      by (subst (asm) epochs_loop.simps) simp
  next
    case True
    from "1.prems" True obtain s1 ui1 cost1 where ep: "epoch s feature ui = Inr (s1, ui1, cost1)"
      by (subst (asm) epochs_loop.simps) (auto split: sum.splits)
    show ?thesis
    proof (cases "self_min_iter s1 \<le> int n \<and> cost1 > cost - self_min_improvement s1")
      case stop: True
      with "1.prems" True ep have res: "s' = s1" "cost' = cost1" "ui' = ui1"
        "history = [(cost, cost1)]"
        by (subst (asm) epochs_loop.simps, simp)+
      show ?thesis unfolding res by (simp add: ep)
    next
      case go: False
      with "1.prems" True ep obtain h where
        rec: "epochs_loop hi s1 feature (Suc n) cost1 ui1 = Inr (s', cost', ui', h)"
        and hist: "history = (cost, cost1) # h"
        by (subst (asm) epochs_loop.simps) (auto split: sum.splits)
      note ih = "1.IH" [OF True refl ep refl refl go rec]
      have a: "run_epochs s feature ui (length history) = Inr (s', ui', map snd history)"
        using ih [THEN conjunct1] by (simp add: hist ep)
      have b: "history = zip (cost # map snd history) (map snd history)"
        using ih [THEN conjunct2, THEN conjunct1] by (simp add: hist)
      have c: "cost' = last (cost # map snd history)"
        using ih [THEN conjunct2, THEN conjunct2] by (simp add: hist)
      from a b c show ?thesis by blast
    qed
  qed
qed

lemma features_loop_accum:
  assumes "features_loop s fs cost ui = Inr (s', cost', ui')" "self_sse s \<noteq> None"
  shows "accum s (all_passes s fs (epoch_counts s fs cost ui)) s' \<and>
     length (epoch_counts s fs cost ui) = length fs \<and>
     list_all (\<lambda>c. int c \<le> max 0 (self_max_iter s)) (epoch_counts s fs cost ui) \<and>
     (0 < self_max_iter s \<longrightarrow> list_all (\<lambda>c. 0 < c) (epoch_counts s fs cost ui))"
  using assms
proof (induction fs arbitrary: s cost ui)
  case Nil
  then show ?case by (simp add: accum_refl)
next
  case (Cons feature fs)
  from Cons.prems obtain s1 cost1 ui1 h where
    ep: "epochs_loop (self_max_iter s) s feature 0 cost ui = Inr (s1, cost1, ui1, h)"
    and rest: "features_loop s1 fs cost1 ui1 = Inr (s', cost', ui')"
    by (auto split: sum.splits)
  note e = epochs_loop_history [OF ep]
  have cfg: "same_setup s s1" using e by simp
  have mi: "self_max_iter s1 = self_max_iter s" using cfg by (simp add: same_setup_def)
  have bound: "int (length h) \<le> max 0 (self_max_iter s)"
    using e [THEN conjunct2, THEN conjunct2, THEN conjunct1] by simp
  have pos: "0 < self_max_iter s \<Longrightarrow> 0 < length h"
    using epochs_loop_nonempty [OF ep] by simp
  note ac = epochs_loop_accum [OF ep Cons.prems(2)]
  note ih = Cons.IH [OF rest accum_sse [OF ac]]
  have cnt: "epoch_counts s (feature # fs) cost ui = length h # epoch_counts s1 fs cost1 ui1"
    by (simp add: ep)
  have "accum s1 (all_passes s fs (epoch_counts s1 fs cost1 ui1)) s'"
    using ih [THEN conjunct1] by (simp add: all_passes_same_setup [OF cfg])
  from accum_trans [OF ac this]
  have a: "accum s (all_passes s (feature # fs) (epoch_counts s (feature # fs) cost ui)) s'"
    unfolding cnt by simp
  have b: "length (epoch_counts s (feature # fs) cost ui) = length (feature # fs)"
    unfolding cnt using ih [THEN conjunct2, THEN conjunct1] by simp
  have c: "list_all (\<lambda>c. int c \<le> max 0 (self_max_iter s))
      (epoch_counts s (feature # fs) cost ui)"
    unfolding cnt using ih [THEN conjunct2, THEN conjunct2, THEN conjunct1] bound
    by (simp add: mi)
  have d: "0 < self_max_iter s \<longrightarrow>
      list_all (\<lambda>c. 0 < c) (epoch_counts s (feature # fs) cost ui)"
    unfolding cnt using ih [THEN conjunct2, THEN conjunct2, THEN conjunct2] pos
    by (simp add: mi)
  from a b c d show ?case by blast
qed


section \<open>The cost of the convergence test\<close>

lemma linalg_norm_sq: "linalg_norm a ^ 2 = sum_list (map (\<lambda>x. x ^ 2) a)"
proof -
  have "0 \<le> sum_list (map (\<lambda>x. x ^ 2) a)"
    by (intro sum_list_nonneg) auto
  then show ?thesis by (simp add: linalg_norm_def)
qed

lemma column_Inr:
  "column a c = Inr x \<longleftrightarrow> list_all (\<lambda>row. c < length row) a \<and> x = map (\<lambda>row. row ! c) a"
  by (auto simp: column_def)

lemma dot_Inr:
  "dot a b = Inr d \<longleftrightarrow>
     length a = length b \<and> d = sum_list (map (\<lambda>(x, y). x * y) (zip a b))"
  by (auto simp: dot_def)

lemma sum_list_sq_column:
  "sum_list (map (\<lambda>x. x ^ 2) (map (\<lambda>row. row ! c) a)) = (\<Sum>k<length a. (a ! k ! c :: real) ^ 2)"
proof -
  have "sum_list (map (\<lambda>x. x ^ 2) (map (\<lambda>row. row ! c) a)) =
      (\<Sum>k = 0..<length a. (map (\<lambda>x. x ^ 2) (map (\<lambda>row. row ! c) a)) ! k)"
    by (simp add: sum_list_sum_nth)
  also have "\<dots> = (\<Sum>k = 0..<length a. (a ! k ! c) ^ 2)"
    by (intro sum.cong) simp_all
  finally show ?thesis by (simp add: lessThan_atLeast0)
qed

lemma dot_columns:
  assumes "length a = length b"
  shows "sum_list (map (\<lambda>(x, y). x * y) (zip (map (\<lambda>row. row ! i) a) (map (\<lambda>row. row ! u) b)))
     = (\<Sum>k<length a. (a ! k ! i :: real) * b ! k ! u)"
proof -
  have "sum_list (map (\<lambda>(x, y). x * y) (zip (map (\<lambda>row. row ! i) a) (map (\<lambda>row. row ! u) b)))
     = (\<Sum>k<length (map (\<lambda>row. row ! i) a). map (\<lambda>row. row ! i) a ! k * map (\<lambda>row. row ! u) b ! k)"
    using assms by (intro sum_list_zip_nth) simp
  also have "\<dots> = (\<Sum>k<length a. a ! k ! i * b ! k ! u)"
    using assms by (intro sum.cong) simp_all
  finally show ?thesis .
qed

lemma compute_cost_formula:
  assumes "compute_cost s u i = Inr c"
  shows "c = (self_R s ! u ! i - (self_mu s - self_b_i s ! i - self_b_u s ! u -
               (\<Sum>k<length (self_q s). self_q s ! k ! i * self_p s ! k ! u))) ^ 2 +
             self_lambda s *
               ((self_b_i s ! i) ^ 2 + (self_b_u s ! u) ^ 2 +
                (\<Sum>k<length (self_q s). (self_q s ! k ! i) ^ 2) +
                (\<Sum>k<length (self_p s). (self_p s ! k ! u) ^ 2))"
proof -
  from assms obtain d where
    len: "length (self_q s) = length (self_p s)"
    and d: "d = sum_list (map (\<lambda>(x, y). x * y)
        (zip (map (\<lambda>row. row ! i) (self_q s)) (map (\<lambda>row. row ! u) (self_p s))))"
    and c: "c = (self_R s ! u ! i - (self_mu s - self_b_i s ! i - self_b_u s ! u - d)) ^ 2 +
         self_lambda s * ((self_b_i s ! i) ^ 2 + (self_b_u s ! u) ^ 2 +
           linalg_norm (map (\<lambda>row. row ! i) (self_q s)) ^ 2 +
           linalg_norm (map (\<lambda>row. row ! u) (self_p s)) ^ 2)"
    unfolding compute_cost_def andthen_eq_Inr get_rating_def mat_get_Inr vec_get_Inr
      column_Inr dot_Inr
    by (auto simp: Let_def)
  show ?thesis
    unfolding c d dot_columns [OF len] linalg_norm_sq sum_list_sq_column by simp
qed

lemma example_started_ready:
  "shapes_ok example_started" "pairs_ok example_started" "0 < self_f example_started"
  "self_sse example_started \<noteq> None"
  "zip (self_K_users example_started) (self_K_items example_started) \<noteq> []"
  by code_simp+


text \<open>
  C9. An epoch over a non-empty list of known pairs computes its cost once, after the
  last step, for the last pair \<open>(u, i)\<close> of the list and on the object as the steps of
  the epoch have left it: \<open>(r - r_hat_desc)\<^sup>2 + lambda * (b_i[i]\<^sup>2 + b_u[u]\<^sup>2 +
  |q[:,i]|\<^sup>2 + |p[:,u]|\<^sup>2)\<close> with \<open>r_hat_desc = mu - b_i[i] - b_u[u] - dot(q[:,i], p[:,u])\<close>.
  No other pair enters the cost.
\<close>

theorem epoch_cost_of_last_pair:
  assumes "shapes_ok s" "pairs_ok s" "feature < self_f s" "self_sse s \<noteq> None"
    "zip (self_K_users s) (self_K_items s) \<noteq> []"
  shows "\<exists>s1 u i cost.
     last (zip (self_K_users s) (self_K_items s)) = (u, i) \<and>
     pairs_loop s feature (zip (self_K_users s) (self_K_items s)) ui = Inr (s1, Some (u, i)) \<and>
     epoch s feature ui = Inr (s1, Some (u, i), cost) \<and>
     compute_cost s1 u i = Inr cost \<and>
     cost = (self_R s1 ! u ! i - (self_mu s1 - self_b_i s1 ! i - self_b_u s1 ! u -
               (\<Sum>k<length (self_q s1). self_q s1 ! k ! i * self_p s1 ! k ! u))) ^ 2 +
             self_lambda s1 *
               ((self_b_i s1 ! i) ^ 2 + (self_b_u s1 ! u) ^ 2 +
                (\<Sum>k<length (self_q s1). (self_q s1 ! k ! i) ^ 2) +
                (\<Sum>k<length (self_p s1). (self_p s1 ! k ! u) ^ 2))"
proof -
  let ?ks = "zip (self_K_users s) (self_K_items s)"
  from epoch_returns [OF assms, of ui] obtain s1 ui1 cost where
    ep: "epoch s feature ui = Inr (s1, ui1, cost)" by blast
  then obtain u i where pl: "pairs_loop s feature ?ks ui = Inr (s1, ui1)"
    and ui1: "ui1 = Some (u, i)" and cc: "compute_cost s1 u i = Inr cost"
    unfolding epoch_Inr by blast
  from pairs_loop_inv [OF pl] assms(5) have "ui1 = Some (last ?ks)" by simp
  with ui1 have l: "last ?ks = (u, i)" by simp
  from l pl ep cc compute_cost_formula [OF cc] show ?thesis unfolding ui1 by blast
qed

theorem epoch_cost_of_last_pair_witness:
  "\<exists>s1 cost.
     last (zip (self_K_users example_started) (self_K_items example_started)) = (0, 1) \<and>
     epoch example_started 0 None = Inr (s1, Some (0, 1), cost) \<and>
     compute_cost s1 0 1 = Inr cost"
proof -
  have l: "last (zip (self_K_users example_started) (self_K_items example_started)) = (0, 1)"
    by code_simp
  from epoch_cost_of_last_pair [OF example_started_ready, of None] l
  show ?thesis by auto
qed

text \<open>
  C7. On every well-shaped object the loop over the epochs of a feature returns, and it
  returns what running \<open>length costs\<close> epochs one after the other returns, where
  \<open>costs ! k\<close> is the cost that epoch \<open>k\<close> computed and \<open>(cost # costs) ! k\<close> the cost
  it started from (\<^verbatim>\<open>cost_last\<close>). At most \<^verbatim>\<open>max_iter\<close> epochs run, and at least
  one when \<^verbatim>\<open>max_iter\<close> is positive. An epoch \<open>k\<close> with \<open>k \<ge> min_iter\<close> and
  \<open>cost > cost_last - min_improvement\<close> is the last one; after any other epoch the next
  one runs, as long as fewer than \<^verbatim>\<open>max_iter\<close> have run.
\<close>

theorem epochs_loop_bounded:
  assumes "shapes_ok s" "pairs_ok s" "feature < self_f s" "self_sse s \<noteq> None"
    "zip (self_K_users s) (self_K_items s) \<noteq> []"
  shows "\<exists>s' cost' ui' history costs.
     epochs_loop (self_max_iter s) s feature 0 cost ui = Inr (s', cost', ui', history) \<and>
     run_epochs s feature ui (length costs) = Inr (s', ui', costs) \<and>
     history = zip (cost # costs) costs \<and>
     cost' = last (cost # costs) \<and>
     int (length costs) \<le> max 0 (self_max_iter s) \<and>
     (0 < self_max_iter s \<longrightarrow> costs \<noteq> []) \<and>
     (\<forall>k<length costs.
        (self_min_iter s \<le> int k \<and> costs ! k > (cost # costs) ! k - self_min_improvement s)
        \<longrightarrow> Suc k = length costs) \<and>
     (\<forall>k<length costs.
        \<not> (self_min_iter s \<le> int k \<and>
           costs ! k > (cost # costs) ! k - self_min_improvement s)
        \<and> int k + 1 < self_max_iter s \<longrightarrow> Suc k < length costs)"
proof -
  from epochs_loop_returns [OF assms, of "self_max_iter s" 0 cost ui]
  obtain s' cost' ui' history where
    r: "epochs_loop (self_max_iter s) s feature 0 cost ui = Inr (s', cost', ui', history)"
    by blast
  define costs where "costs = map snd history"
  note run = epochs_loop_run [OF r, folded costs_def]
  have len: "length costs = length history" by (simp add: costs_def)
  have hz: "history = zip (cost # costs) costs"
    by (rule run [THEN conjunct2, THEN conjunct1])
  have nth: "fst (history ! k) = (cost # costs) ! k \<and> snd (history ! k) = costs ! k"
    if "k < length costs" for k
  proof -
    have "history ! k = zip (cost # costs) costs ! k" using hz by simp
    also have "\<dots> = ((cost # costs) ! k, costs ! k)" using that by (intro nth_zip) simp_all
    finally show ?thesis by simp
  qed
  note h = epochs_loop_history [OF r]
  have a: "int (length costs) \<le> max 0 (self_max_iter s)"
    using h [THEN conjunct2, THEN conjunct2, THEN conjunct1] by (simp add: len max.commute)
  have b: "0 < self_max_iter s \<longrightarrow> costs \<noteq> []"
    using epochs_loop_nonempty [OF r] len by auto
  have c: "Suc k = length costs"
    if "k < length costs" "self_min_iter s \<le> int k \<and>
      costs ! k > (cost # costs) ! k - self_min_improvement s" for k
    using h [THEN conjunct2, THEN conjunct2, THEN conjunct2, THEN conjunct1, rule_format, of k]
      that nth [of k] by (simp add: len)
  have d: "Suc k < length costs"
    if "k < length costs" "\<not> (self_min_iter s \<le> int k \<and>
      costs ! k > (cost # costs) ! k - self_min_improvement s) \<and> int k + 1 < self_max_iter s"
    for k
    using h [THEN conjunct2, THEN conjunct2, THEN conjunct2, THEN conjunct2, THEN conjunct1,
        rule_format, of k]
      that nth [of k] by (simp add: len)
  show ?thesis
    apply (intro exI [of _ s'] exI [of _ cost'] exI [of _ ui'] exI [of _ history]
        exI [of _ costs] conjI allI impI)
    subgoal by (rule r)
    subgoal unfolding len by (rule run [THEN conjunct1])
    subgoal by (rule hz)
    subgoal by (rule run [THEN conjunct2, THEN conjunct2])
    subgoal by (rule a)
    subgoal using b by simp
    subgoal for k using c [of k] by simp
    subgoal for k using d [of k] by simp
    done
qed

theorem epochs_loop_bounded_witness:
  "\<exists>s' cost' ui' history costs.
     epochs_loop (self_max_iter example_started) example_started 0 0 2 None
       = Inr (s', cost', ui', history) \<and>
     run_epochs example_started 0 None (length costs) = Inr (s', ui', costs) \<and>
     costs \<noteq> [] \<and> int (length costs) \<le> 1000"
proof -
  have m: "max 0 (self_max_iter example_started) = 1000" "0 < self_max_iter example_started"
    by code_simp+
  from epochs_loop_bounded [OF example_started_ready, of 2 None]
  show ?thesis unfolding m by (simp add: m) blast
qed

section \<open>The accumulated error\<close>

lemma example_ready:
  "shapes_ok example_model" "pairs_ok example_model"
  "self_K_users example_model \<noteq> []" "self_K_items example_model \<noteq> []"
  by code_simp+

text \<open>
  C8. On every well-shaped object with known pairs \<^verbatim>\<open>train\<close> returns. The steps it
  has made are, feature by feature, \<open>cs\<close> passes over the known pairs, where \<open>cs\<close>
  are the numbers of epochs that the loops over the epochs have run (at most
  \<^verbatim>\<open>max_iter\<close> each, and at least one each when \<^verbatim>\<open>max_iter\<close> is positive). The
  object it returns is the object after exactly these gradient steps, with \<^verbatim>\<open>sse\<close>
  the sum of the squares of the errors that \<^verbatim>\<open>get_error\<close> returned at these steps,
  over all features, epochs and pairs, and with \<^verbatim>\<open>rmse\<close> \<open>= sqrt (sse / |K|)\<close>,
  assigned once, after the loop over the features, which does not assign it.
\<close>

theorem train_sse_rmse:
  assumes "shapes_ok s" "pairs_ok s" "self_K_users s \<noteq> []" "self_K_items s \<noteq> []"
  shows "\<exists>s' t errs cs xs.
     cs = epoch_counts (s\<lparr>self_sse := Some 0, step_log := []\<rparr>) [0..<self_f s] 2 None \<and>
     length cs = self_f s \<and>
     list_all (\<lambda>c. int c \<le> max 0 (self_max_iter s)) cs \<and>
     (0 < self_max_iter s \<longrightarrow> list_all (\<lambda>c. 0 < c) cs) \<and>
     xs = all_passes s [0..<self_f s] cs \<and>
     run_steps s xs = Inr (t, errs) \<and>
     train s = Inr s' \<and>
     s' = t\<lparr>self_sse := Some (sum_list (map (\<lambda>e. e ^ 2) errs)),
            self_rmse := Some (sqrt (sum_list (map (\<lambda>e. e ^ 2) errs)
                                / real (length (self_K_items s)))),
            step_log := log_entries xs errs\<rparr> \<and>
     (\<exists>s1 cost1 ui1.
        features_loop (s\<lparr>self_sse := Some 0, step_log := []\<rparr>) [0..<self_f s] 2 None
          = Inr (s1, cost1, ui1) \<and>
        self_rmse s1 = self_rmse s \<and>
        s' = s1\<lparr>self_rmse := Some (sqrt (sum_list (map (\<lambda>e. e ^ 2) errs)
                                / real (length (self_K_items s))))\<rparr>)"
proof -
  let ?s0 = "s\<lparr>self_sse := Some 0, step_log := []\<rparr>"
  define cs where "cs = epoch_counts ?s0 [0..<self_f s] 2 None"
  define xs where "xs = all_passes s [0..<self_f s] cs"
  from train_returns [OF assms] obtain s' where t: "train s = Inr s'" ..
  from t obtain s1 cost1 ui1 a where
    fl: "features_loop ?s0 [0..<self_f s] 2 None = Inr (s1, cost1, ui1)"
    and a: "self_sse s1 = Some a"
    and s': "s' = s1\<lparr>self_rmse := Some (sqrt (a / real (length (self_K_items s))))\<rparr>"
    unfolding train_def by (auto simp: Let_def split: sum.splits option.splits if_splits)
  have s0: "self_sse ?s0 \<noteq> None" by simp
  note fa = features_loop_accum [OF fl s0, folded cs_def]
  have cfg0: "same_setup s ?s0" by (simp add: same_setup_def)
  have "accum ?s0 xs s1"
    using fa [THEN conjunct1] all_passes_same_setup [OF cfg0] by (simp add: xs_def)
  then obtain t0 errs where
    r0: "run_steps ?s0 xs = Inr (t0, errs)"
    and s1: "s1 = t0\<lparr>self_sse := Some (sum_list (map (\<lambda>e. e ^ 2) errs)),
                    step_log := log_entries xs errs\<rparr>"
    unfolding accum_def by auto
  from r0 obtain t' where r: "run_steps s xs = Inr (t', errs)"
    and t0: "t0 = t'\<lparr>self_sse := Some 0, step_log := []\<rparr>"
    unfolding run_steps_ignores_sums by (auto split: sum.splits)
  have a_eq: "a = sum_list (map (\<lambda>e. e ^ 2) errs)" using a unfolding s1 by simp
  have cfg1: "same_setup ?s0 s1" using features_loop_inv [OF fl] by blast
  then have rm: "self_rmse s1 = self_rmse s" by (simp add: same_setup_def)
  have len: "length cs = self_f s" using fa [THEN conjunct2, THEN conjunct1] by simp
  have bnd: "list_all (\<lambda>c. int c \<le> max 0 (self_max_iter s)) cs"
    using fa [THEN conjunct2, THEN conjunct2, THEN conjunct1] by simp
  have pos: "0 < self_max_iter s \<longrightarrow> list_all (\<lambda>c. 0 < c) cs"
    using fa [THEN conjunct2, THEN conjunct2, THEN conjunct2] by simp
  have s'_eq: "s' = t'\<lparr>self_sse := Some (sum_list (map (\<lambda>e. e ^ 2) errs)),
            self_rmse := Some (sqrt (sum_list (map (\<lambda>e. e ^ 2) errs)
                                / real (length (self_K_items s)))),
            step_log := log_entries xs errs\<rparr>"
    unfolding s' s1 t0 a_eq by simp
  have last_c: "s' = s1\<lparr>self_rmse := Some (sqrt (sum_list (map (\<lambda>e. e ^ 2) errs)
                                / real (length (self_K_items s))))\<rparr>"
    unfolding s' a_eq ..
  show ?thesis
    apply (rule exI [of _ s'], rule exI [of _ t'], rule exI [of _ errs], rule exI [of _ cs],
        rule exI [of _ xs])
    apply (intro conjI)
    subgoal by (rule cs_def)
    subgoal by (rule len)
    subgoal by (rule bnd)
    subgoal by (rule pos)
    subgoal by (rule xs_def)
    subgoal by (rule r)
    subgoal by (rule t)
    subgoal by (rule s'_eq)
    subgoal using fl rm last_c by blast
    done
qed

theorem train_sse_rmse_witness:
  "\<exists>s' t errs c.
     0 < c \<and> int c \<le> 1000 \<and>
     run_steps example_model (passes example_model 0 c) = Inr (t, errs) \<and>
     train example_model = Inr s' \<and>
     self_sse s' = Some (sum_list (map (\<lambda>e. e ^ 2) errs)) \<and>
     self_rmse s' = Some (sqrt (sum_list (map (\<lambda>e. e ^ 2) errs) / 3))"
proof -
  have k: "real (length (self_K_items example_model)) = 3" "self_f example_model = 1"
    "0 < self_max_iter example_model" "max 0 (self_max_iter example_model) = 1000"
    by (simp_all add: example_model_def)
  from train_sse_rmse [OF example_ready] obtain s' t errs cs xs where
    len: "length cs = self_f example_model"
    and bnd: "list_all (\<lambda>c. int c \<le> max 0 (self_max_iter example_model)) cs"
    and pos: "0 < self_max_iter example_model \<longrightarrow> list_all (\<lambda>c. 0 < c) cs"
    and xs: "xs = all_passes example_model [0..<self_f example_model] cs"
    and r: "run_steps example_model xs = Inr (t, errs)"
    and t: "train example_model = Inr s'"
    and s': "s' = t\<lparr>self_sse := Some (sum_list (map (\<lambda>e. e ^ 2) errs)),
            self_rmse := Some (sqrt (sum_list (map (\<lambda>e. e ^ 2) errs)
                                / real (length (self_K_items example_model)))),
            step_log := log_entries xs errs\<rparr>"
    by blast
  from len obtain c where cs: "cs = [c]" by (cases cs) (simp_all add: k)
  have "xs = passes example_model 0 c" unfolding xs cs by (simp add: k)
  moreover have "0 < c" "int c \<le> 1000" using pos bnd by (simp_all add: cs k)
  ultimately show ?thesis using r t unfolding s' k by auto
qed

section \<open>The constructor\<close>

text \<open>
  Every object that the constructor returns has the shapes of \<open>shapes_ok\<close>, its known
  pairs are positions of the arrays, and it has at least one known pair.
\<close>

lemma py_max_Inr:
  "py_max xs = Inr k \<longleftrightarrow> xs \<noteq> [] \<and> k = Max (set xs)"
  by (cases xs) (auto simp: py_max_def Max.set_eq_fold [symmetric])

lemma nonzero_pairs:
  "zip (fst (nonzero a)) (snd (nonzero a)) =
     filter (\<lambda>(u, i). cell a u i \<noteq> 0)
       (concat (map (\<lambda>i. map (\<lambda>u. (u, i)) [0..<shape_rows a]) [0..<shape_cols a]))"
  by (simp add: nonzero_def Let_def zip_map_fst_snd)

lemma nonzero_lengths: "length (fst (nonzero a)) = length (snd (nonzero a))"
  by (simp add: nonzero_def Let_def)

lemma nonzero_in_shape:
  assumes "(u, i) \<in> set (zip (fst (nonzero a)) (snd (nonzero a)))"
  shows "u < shape_rows a \<and> i < shape_cols a"
  using assms unfolding nonzero_pairs by auto

lemma nonzero_users_in_shape:
  assumes "u \<in> set (fst (nonzero a))"
  shows "u < shape_rows a"
  using assms by (auto simp: nonzero_def Let_def)

lemma nonzero_items_in_shape:
  assumes "i \<in> set (snd (nonzero a))"
  shows "i < shape_cols a"
  using assms by (auto simp: nonzero_def Let_def)

lemma todense_shape:
  "length (todense a) = shape_rows a"
  "list_all (\<lambda>row. length row = shape_cols a) (todense a)"
  by (simp_all add: todense_def list_all_iff)

lemma reshape_shape:
  assumes "length xs = r * c"
  shows "length (reshape xs r c) = r" "list_all (\<lambda>row. length row = c) (reshape xs r c)"
proof -
  show "length (reshape xs r c) = r" by (simp add: reshape_def)
  have "min (r * c - k * c) c = c" if "k < r" for k
  proof -
    from that have "Suc k \<le> r" by simp
    then have "Suc k * c \<le> r * c" by (rule mult_le_mono1)
    then show ?thesis by simp
  qed
  then show "list_all (\<lambda>row. length row = c) (reshape xs r c)"
    using assms by (simp add: reshape_def list_all_iff)
qed

lemma ones_times_shape:
  "length (ones_times a) = length a"
  "list_all (\<lambda>row. length row = c) (ones_times a) = list_all (\<lambda>row. length row = c) a"
  by (simp_all add: ones_times_def list_all_iff)

lemma uniform_length [simp]: "length (uniform rnd start k) = k"
  by (simp add: uniform_def)

lemma obind_eq_Some_Inr:
  "obind r k = Some (Inr y) \<longleftrightarrow> (\<exists>x. r = Some (Inr x) \<and> k x = Some (Inr y))"
  by (cases r) (auto simp: obind_def split: sum.splits)

lemma get_mu_each_length:
  "get_mu_each R xs = Some (Inr vs) \<Longrightarrow> length vs = length xs"
proof (induction xs arbitrary: vs)
  case Nil
  then show ?case by simp
next
  case (Cons x xs)
  then show ?case by (auto simp: obind_eq_Some_Inr)
qed

lemma get_baseline_Some:
  assumes "get_baseline s = Some (Inr s')"
  shows "\<exists>mu bu bi. s' = s\<lparr>self_mu := mu, self_b_u := bu, self_b_i := bi\<rparr> \<and>
     length bu = self_n s \<and> length bi = self_m s"
proof -
  from assms obtain mu us "is" where
    us: "get_mu_each (self_R s) (map (\<lambda>u. row_slice (self_R s) u) [0..<self_n s]) = Some (Inr us)"
    and "is": "get_mu_each (self_R s) (map (\<lambda>i. col_slice (self_R s) i) [0..<self_m s]) = Some (Inr is)"
    and s': "s' = s\<lparr>self_mu := mu, self_b_u := map (\<lambda>v. mu - v) us,
                      self_b_i := map (\<lambda>v. mu - v) is\<rparr>"
    unfolding get_baseline_def obind_eq_Some_Inr by auto
  have "length (map (\<lambda>v. mu - v) us) = self_n s" "length (map (\<lambda>v. mu - v) is) = self_m s"
    using get_mu_each_length [OF us] get_mu_each_length [OF "is"] by simp_all
  with s' show ?thesis by blast
qed

lemma init_well_shaped:
  assumes "PMF_init file f gamma lambda min_iter max_iter min_improvement p q rnd = Some (Inr s)"
  shows "shapes_ok s \<and> pairs_ok s \<and> self_K_users s \<noteq> [] \<and> self_K_items s \<noteq> [] \<and>
     length (self_K_users s) = length (self_K_items s) \<and> self_f s = f"
proof -
  have "\<exists>a max_u max_i s0.
      py_max (fst (nonzero a)) = Inr max_u \<and> py_max (snd (nonzero a)) = Inr max_i \<and>
      get_baseline s0 = Some (Inr s) \<and> self_R s0 = todense a \<and> self_f s0 = f \<and>
      self_K_users s0 = fst (nonzero a) \<and> self_K_items s0 = snd (nonzero a) \<and>
      self_n s0 = max_u + 1 \<and> self_m s0 = max_i + 1 \<and>
      self_p s0 = ones_times (reshape (uniform rnd 0 (f * (max_u + 1))) f (max_u + 1)) \<and>
      self_q s0 = ones_times
         (reshape (uniform rnd (f * (max_u + 1)) ((max_i + 1) * f)) f (max_i + 1))"
    using assms
    apply (clarsimp simp: PMF_init_def obind_eq_Some_Inr Let_def hasattr_def class_attrs_def)
    apply (intro exI conjI)
              apply assumption
             apply assumption
            apply assumption
           apply simp_all
    done
  then obtain a max_u max_i s0 where
    mu: "py_max (fst (nonzero a)) = Inr max_u"
    and mi: "py_max (snd (nonzero a)) = Inr max_i"
    and gb: "get_baseline s0 = Some (Inr s)"
    and f0: "self_R s0 = todense a" "self_f s0 = f"
      "self_K_users s0 = fst (nonzero a)" "self_K_items s0 = snd (nonzero a)"
      "self_n s0 = max_u + 1" "self_m s0 = max_i + 1"
      "self_p s0 = ones_times (reshape (uniform rnd 0 (f * (max_u + 1))) f (max_u + 1))"
      "self_q s0 = ones_times
         (reshape (uniform rnd (f * (max_u + 1)) ((max_i + 1) * f)) f (max_i + 1))"
    by blast
  from get_baseline_Some [OF gb] obtain m bu bi where
    s: "s = s0\<lparr>self_mu := m, self_b_u := bu, self_b_i := bi\<rparr>"
    and lens: "length bu = self_n s0" "length bi = self_m s0" by blast
  from mu have ku: "fst (nonzero a) \<noteq> []" and mu': "max_u = Max (set (fst (nonzero a)))"
    by (simp_all add: py_max_Inr)
  from mi have ki: "snd (nonzero a) \<noteq> []" and mi': "max_i = Max (set (snd (nonzero a)))"
    by (simp_all add: py_max_Inr)
  have "max_u \<in> set (fst (nonzero a))" unfolding mu' using ku by (intro Max_in) simp_all
  then have nu: "max_u + 1 \<le> shape_rows a" using nonzero_users_in_shape [of max_u a] by simp
  have "max_i \<in> set (snd (nonzero a))" unfolding mi' using ki by (intro Max_in) simp_all
  then have ni: "max_i + 1 \<le> shape_cols a" using nonzero_items_in_shape [of max_i a] by simp
  have p: "length (self_p s) = f" "list_all (\<lambda>row. length row = max_u + 1) (self_p s)"
    unfolding s by (simp_all add: f0 ones_times_shape reshape_shape del: One_nat_def)
  have q: "length (self_q s) = f" "list_all (\<lambda>row. length row = max_i + 1) (self_q s)"
    unfolding s
    by (simp_all add: f0 ones_times_shape reshape_shape mult.commute [of f] del: One_nat_def)
  have R: "max_u + 1 \<le> length (self_R s)" "list_all (\<lambda>row. max_i + 1 \<le> length row) (self_R s)"
    using nu ni todense_shape [of a] unfolding s by (simp_all add: f0 list_all_iff)
  have sh: "shapes_ok s"
    unfolding shapes_ok_def using p q R lens by (simp add: s f0)
  have "u < max_u + 1 \<and> i < max_i + 1"
    if "(u, i) \<in> set (zip (fst (nonzero a)) (snd (nonzero a)))" for u i
  proof -
    from that have "u \<in> set (fst (nonzero a))" "i \<in> set (snd (nonzero a))"
      by (auto dest: set_zip_leftD set_zip_rightD)
    then have "u \<le> max_u" "i \<le> max_i" unfolding mu' mi' by simp_all
    then show ?thesis by simp
  qed
  then have pk: "pairs_ok s"
    unfolding pairs_ok_def by (auto simp: s f0 list_all_iff)
  show ?thesis using sh pk ku ki nonzero_lengths [of a] by (simp add: s f0)
qed

text \<open>
  C3, at the code. The constructor does not look at the matrices \<^verbatim>\<open>p\<close> and \<^verbatim>\<open>q\<close>
  that it is given: \<^verbatim>\<open>hasattr(self, 'p')\<close> and \<^verbatim>\<open>hasattr(self, 'q')\<close> are false
  when they are evaluated, so with any matrices the object is the one built with none,
  whose factors are drawn at random.
\<close>

theorem init_ignores_supplied_factors:
  "PMF_init file f gamma lambda min_iter max_iter min_improvement p q rnd =
   PMF_init file f gamma lambda min_iter max_iter min_improvement None None rnd"
  by (simp add: PMF_init_def hasattr_def class_attrs_def)

section \<open>Baseline estimation\<close>

text \<open>
  The mean that \<^verbatim>\<open>_get_mu\<close> returns divides by the number of all cells of its
  argument: the dense matrix holds a zero, not a NaN, where a rating is missing. When the
  cells sum to zero it calls itself on the whole matrix.
\<close>

lemma get_mu_all_cells:
  "concat x \<noteq> [] \<Longrightarrow> sum_list (concat x) \<noteq> 0 \<Longrightarrow>
   get_mu R x = Some (Inr (sum_list (concat x) / real (length (concat x))))"
  by (subst get_mu.simps) (simp add: nansum_def count_nonzero_def isnan_def Let_def)

lemma get_mu_zero_sum:
  "concat x \<noteq> [] \<Longrightarrow> sum_list (concat x) = 0 \<Longrightarrow> get_mu R x = get_mu R R"
  by (subst get_mu.simps) (auto simp: nansum_def count_nonzero_def isnan_def Let_def)

lemma get_mu_diverges:
  assumes "concat R \<noteq> []" "nansum R = 0"
  shows "get_mu R R = None"
proof (cases "get_mu R R")
  case None then show ?thesis .
next
  case (Some y)
  have "(case (R, R) of (R', x) \<Rightarrow> \<lambda>y. \<not> (R' = R \<and> x = R)) y"
  proof (rule get_mu.raw_induct [where P = "\<lambda>R' x y. \<not> (R' = R \<and> x = R)" and xa = "(R, R)" and y = y])
    fix g R1 x Ra
    assume ih: "\<And>x b y. g x b = Some y \<Longrightarrow> \<not> (x = R \<and> b = R)"
      and eq: "(let c = count_nonzero (map (\<lambda>v. \<not> isnan v) (concat x))
        in if c = 0 then Some (Inl FloatingPointError)
           else let v = nansum x / real c
                in if v \<noteq> 0 then Some (Inr v) else g R1 R1) = Some Ra"
    show "\<not> (R1 = R \<and> x = R)"
    proof
      assume "R1 = R \<and> x = R"
      with eq assms have "g R R = Some Ra"
        by (auto simp: Let_def count_nonzero_def isnan_def split: if_splits)
      with ih show False by blast
    qed
  next
    show "(case (R, R) of (x, xa) \<Rightarrow> get_mu x xa) = Some y" using Some by simp
  qed
  then show ?thesis by simp
qed


text \<open>
  C2, at the code. From the file of the three lines the constructor builds two users,
  two items and three known pairs, and the matrix \<open>[[5, 3], [4, 0]]\<close>; its \<open>mu\<close> is
  \<open>3\<close>, the sum \<open>12\<close> of the ratings over the four cells of the matrix, not their mean
  \<open>4\<close> over the three known ratings.
\<close>

theorem example_mean_counts_missing:
  "\<exists>s. PMF_init example_file 1 (5 / 1000) (2 / 100) 1 1000 (1 / 10000) None None example_rnd
          = Some (Inr s) \<and>
        self_n s = 2 \<and> self_m s = 2 \<and>
        zip (self_K_users s) (self_K_items s) = [(0, 0), (1, 0), (0, 1)] \<and>
        self_R s = [[5, 3], [4, 0]] \<and> self_mu s = 3"
  unfolding init_example by (simp add: example_model_def)


text \<open>
  C6, at the code. In the same example the second user has the single known rating \<open>4\<close>;
  the bias of that user is \<open>mu\<close> minus the row sum over the two cells of the row,
  \<open>3 - 2 = 1\<close>, not \<open>mu\<close> minus the mean \<open>4\<close> of the known ratings of the row. The
  item biases are computed the same way over the columns.
\<close>

theorem example_bias_counts_missing:
  "\<exists>s. PMF_init example_file 1 (5 / 1000) (2 / 100) 1 1000 (1 / 10000) None None example_rnd
          = Some (Inr s) \<and>
        self_R s = [[5, 3], [4, 0]] \<and> self_mu s = 3 \<and>
        self_b_u s = [- 1, 1] \<and> self_b_i s = [- (3 / 2), 3 / 2]"
  unfolding init_example by (simp add: example_model_def)


text \<open>
  C4, as the code has it. When the data have no known (non-zero) entry, the constructor
  raises \<^verbatim>\<open>ValueError\<close>, from \<^verbatim>\<open>max\<close> of the empty sequence of known users, before
  it calls the baseline estimation.
\<close>

theorem init_without_known_entries:
  assumes "load_data file = Inr a" "fst (nonzero a) = []"
  shows "PMF_init file f gamma lambda min_iter max_iter min_improvement p q rnd =
         Some (Inl ValueError)"
  using assms by (simp add: PMF_init_def py_max_def)


theorem init_without_known_entries_witness:
  "load_data [[1, 1, 0]] = Inr \<lparr>shape_rows = 1, shape_cols = 1, entries = [(0, 0, 0)]\<rparr> \<and>
   fst (nonzero \<lparr>shape_rows = 1, shape_cols = 1, entries = [(0, 0, 0)]\<rparr>) = [] \<and>
   PMF_init [[1, 1, 0]] 1 (5 / 1000) (2 / 100) 1 1000 (1 / 10000) None None example_rnd =
     Some (Inl ValueError)"
proof -
  have l: "load_data [[1, 1, 0]] = Inr \<lparr>shape_rows = 1, shape_cols = 1, entries = [(0, 0, 0)]\<rparr>"
    by code_simp
  have z: "fst (nonzero \<lparr>shape_rows = 1, shape_cols = 1, entries = [(0, 0, 0)]\<rparr>) = []"
    by code_simp
  from init_without_known_entries [OF l z] l z show ?thesis by simp
qed


text \<open>
  The statement of C4 itself fails: for the file of the one line \<^verbatim>\<open>1 1 0\<close> the
  exception comes from the constructor, not from the baseline estimation; and the
  baseline estimation of an object without a known entry raises nothing, its mean never
  reaches a result.
\<close>

theorem baseline_without_known_entries:
  "PMF_init [[1, 1, 0]] 1 (5 / 1000) (2 / 100) 1 1000 (1 / 10000) None None example_rnd =
     Some (Inl ValueError) \<and>
   get_mu (self_R unrated_model) (self_R unrated_model) = None \<and>
   get_baseline unrated_model = None"
proof (intro conjI)
  show "PMF_init [[1, 1, 0]] 1 (5 / 1000) (2 / 100) 1 1000 (1 / 10000) None None example_rnd =
     Some (Inl ValueError)"
    by code_simp
  have r: "self_R unrated_model = [[0, 0], [0, 0]]"
    by (simp add: unrated_model_def)
  show m: "get_mu (self_R unrated_model) (self_R unrated_model) = None"
    unfolding r by (rule get_mu_diverges) (simp_all add: nansum_def isnan_def)
  then show "get_baseline unrated_model = None"
    by (simp add: get_baseline_def)
qed

end
